theory Spec2Isabelle
  imports Complex_Main "HOL-Library.Word"
begin

section \<open>Numbers\<close>

subsection \<open>float64\<close>

text \<open>
  A \<open>float64\<close> is a not-a-number, an infinity or a finite value. The two zeros compare
  equal in Go and are one value here (\<open>Finite 0\<close>). The comparisons \<open><\<close> and \<open>>=\<close>
  of the program are \<open>float64_lt\<close> and \<open>float64_ge\<close> (\<open>a > b\<close> is \<open>b < a\<close>); they are false
  as soon as one side is \<open>NaN\<close>.
\<close>

datatype float64 = NaN | NegInf | Finite real | PosInf

fun float64_lt :: "float64 \<Rightarrow> float64 \<Rightarrow> bool" where
  "float64_lt NaN b = False"
| "float64_lt a NaN = False"
| "float64_lt NegInf b = (b \<noteq> NegInf)"
| "float64_lt (Finite x) NegInf = False"
| "float64_lt (Finite x) (Finite y) = (x < y)"
| "float64_lt (Finite x) PosInf = True"
| "float64_lt PosInf b = False"

definition float64_eq :: "float64 \<Rightarrow> float64 \<Rightarrow> bool" where
  "float64_eq a b = (a \<noteq> NaN \<and> b \<noteq> NaN \<and> a = b)"

definition float64_ge :: "float64 \<Rightarrow> float64 \<Rightarrow> bool" where
  "float64_ge a b = (float64_lt b a \<or> float64_eq a b)"

text \<open>
  Rounding of a real number to the nearest \<open>float64\<close>, ties to the even significand:
  53 bits of significand, exponents from \<open>-1022\<close> to \<open>1023\<close>, subnormal numbers the
  multiples of \<open>2 powi (-1074)\<close>, overflow to an infinity.
\<close>

definition round_half_even :: "real \<Rightarrow> int" where
  "round_half_even q =
     (let f = \<lfloor>q\<rfloor>; r = q - of_int f
      in if r < 1 / 2 then f else if 1 / 2 < r then f + 1 else if even f then f else f + 1)"

definition float64_round :: "real \<Rightarrow> float64" where
  "float64_round x =
     (if x = 0 then Finite 0
      else
        let e = max \<lfloor>log 2 \<bar>x\<bar>\<rfloor> (- 1022) - 52;
            y = of_int (round_half_even (\<bar>x\<bar> / 2 powi e)) * 2 powi e
        in if 2 ^ 1024 \<le> y then (if x < 0 then NegInf else PosInf)
           else Finite (sgn x * y))"

fun float64_add :: "float64 \<Rightarrow> float64 \<Rightarrow> float64" where
  "float64_add NaN b = NaN"
| "float64_add a NaN = NaN"
| "float64_add PosInf NegInf = NaN"
| "float64_add NegInf PosInf = NaN"
| "float64_add PosInf b = PosInf"
| "float64_add a PosInf = PosInf"
| "float64_add NegInf b = NegInf"
| "float64_add a NegInf = NegInf"
| "float64_add (Finite x) (Finite y) = float64_round (x + y)"

subsection \<open>int64\<close>

type_synonym int64 = "64 word"

type_synonym uint64 = "64 word"

text \<open>
  The conversion \<open>float64(value)\<close> of an \<open>int64\<close>: exact below \<open>2 ^ 53\<close> in
  magnitude, otherwise rounded to 53 significant bits, ties to even. The magnitude of
  an \<open>int64\<close> is at most \<open>2 ^ 63\<close>, so the result is finite.
\<close>

fun bit_length :: "nat \<Rightarrow> nat" where
  "bit_length n = (if n = 0 then 0 else Suc (bit_length (n div 2)))"

declare bit_length.simps [simp del]

definition float64_of_int :: "int \<Rightarrow> float64" where
  "float64_of_int n =
     (let a = nat \<bar>n\<bar>
      in if a < 2 ^ 53 then Finite (of_int n)
         else
           let e = bit_length a - 53;
               q = a div 2 ^ e;
               r = a mod 2 ^ e;
               q' = (if 2 ^ (e - 1) < r \<or> (r = 2 ^ (e - 1) \<and> odd q) then q + 1 else q)
           in Finite (of_int (sgn n) * of_nat (q' * 2 ^ e)))"

definition float64_of_int64 :: "int64 \<Rightarrow> float64" where
  "float64_of_int64 v = float64_of_int (sint v)"

subsection \<open>The type parameter \<open>N int64 | float64\<close>\<close>

text \<open>
  The aggregation code is generic in the number type \<open>N\<close> and uses four operations of
  it: the zero value, \<open>+=\<close>, \<open><\<close> (and \<open>>\<close>, its converse) and the conversion
  \<open>float64(value)\<close>. A value of \<open>'n number\<close> carries them; the two instantiations of
  the program are \<open>int64_number\<close> and \<open>float64_number\<close>.
\<close>

record 'n number =
  num_zero :: 'n
  num_add :: "'n \<Rightarrow> 'n \<Rightarrow> 'n"
  num_lt :: "'n \<Rightarrow> 'n \<Rightarrow> bool"
  num_float64 :: "'n \<Rightarrow> float64"

definition int64_number :: "int64 number" where
  "int64_number =
     \<lparr>num_zero = 0, num_add = (+), num_lt = (<s), num_float64 = float64_of_int64\<rparr>"

definition float64_number :: "float64 number" where
  "float64_number =
     \<lparr>num_zero = Finite 0, num_add = float64_add, num_lt = float64_lt,
      num_float64 = (\<lambda>v. v)\<rparr>"

section \<open>Package sort\<close>

text \<open>
  \<open>sort.Float64s\<close> sorts in increasing order of \<open>Float64Slice.Less\<close>, which puts
  \<open>NaN\<close> before every other value. Two values that \<open>Less\<close> does not order are equal
  here, so every sorting algorithm returns the list that insertion sort returns.
\<close>

definition Float64Slice_Less :: "float64 \<Rightarrow> float64 \<Rightarrow> bool" where
  "Float64Slice_Less a b = (float64_lt a b \<or> (a = NaN \<and> b \<noteq> NaN))"

fun insert_Float64 :: "float64 \<Rightarrow> float64 list \<Rightarrow> float64 list" where
  "insert_Float64 x [] = [x]"
| "insert_Float64 x (y # ys) =
     (if Float64Slice_Less y x then y # insert_Float64 x ys else x # y # ys)"

fun Float64s :: "float64 list \<Rightarrow> float64 list" where
  "Float64s [] = []"
| "Float64s (x # xs) = insert_Float64 x (Float64s xs)"

text \<open>
  \<open>sort.Search(n, f)\<close>: binary search for the smallest index \<open>i\<close> in \<open>[0, n]\<close> with
  \<open>f i\<close>; the loop keeps \<open>i \<le> j\<close> and probes \<open>h = (i + j) div 2\<close>.
\<close>

function Search_loop :: "(nat \<Rightarrow> bool) \<Rightarrow> nat \<Rightarrow> nat \<Rightarrow> nat" where
  "Search_loop f i j =
     (if i < j
      then let h = (i + j) div 2
           in if \<not> f h then Search_loop f (h + 1) j else Search_loop f i h
      else i)"
  by pat_completeness auto
termination
  by (relation "measure (\<lambda>(f, i, j). j - i)") auto

declare Search_loop.simps [simp del]

definition Search :: "nat \<Rightarrow> (nat \<Rightarrow> bool) \<Rightarrow> nat" where
  "Search n f = Search_loop f 0 n"

definition SearchFloat64s :: "float64 list \<Rightarrow> float64 \<Rightarrow> nat" where
  "SearchFloat64s a x = Search (length a) (\<lambda>i. float64_ge (a ! i) x)"

section \<open>Memory\<close>

text \<open>
  Slices are references to backing arrays, and the aggregators hand slices out, so the
  arrays live in a store: one of \<open>[]uint64\<close> arrays and one of \<open>[]float64\<close>
  arrays, with the next unused address. Every slice of the program is made by \<open>make\<close>
  and never re-sliced, so a slice is the address of its array and \<open>len\<close> is the
  length of the array. An address that was never allocated holds the empty array.
\<close>

type_synonym addr = nat

record heap =
  uint64s :: "addr \<Rightarrow> uint64 list"
  float64s :: "addr \<Rightarrow> float64 list"
  free :: addr

definition make_uint64s :: "nat \<Rightarrow> heap \<Rightarrow> addr \<times> heap" where
  "make_uint64s n h =
     (free h, h\<lparr>uint64s := (uint64s h)(free h := replicate n 0), free := Suc (free h)\<rparr>)"

definition make_float64s :: "nat \<Rightarrow> heap \<Rightarrow> addr \<times> heap" where
  "make_float64s n h =
     (free h,
      h\<lparr>float64s := (float64s h)(free h := replicate n (Finite 0)), free := Suc (free h)\<rparr>)"

text \<open>The builtin \<open>copy(dst, src)\<close> overwrites the first \<open>min(len(dst), len(src))\<close> elements.\<close>

definition copy_elems :: "'x list \<Rightarrow> 'x list \<Rightarrow> 'x list" where
  "copy_elems dst src =
     (let n = min (length dst) (length src) in take n src @ drop n dst)"

definition copy_uint64s :: "addr \<Rightarrow> addr \<Rightarrow> heap \<Rightarrow> heap" where
  "copy_uint64s dst src h =
     h\<lparr>uint64s := (uint64s h)(dst := copy_elems (uint64s h dst) (uint64s h src))\<rparr>"

definition copy_float64s :: "addr \<Rightarrow> addr \<Rightarrow> heap \<Rightarrow> heap" where
  "copy_float64s dst src h =
     h\<lparr>float64s := (float64s h)(dst := copy_elems (float64s h dst) (float64s h src))\<rparr>"

section \<open>Package aggregate: histograms\<close>

type_synonym time = nat

datatype panic = IndexOutOfRange

subsection \<open>buckets\<close>

record 'n buckets =
  counts :: addr
  count :: uint64
  sum_b :: 'n
  min_b :: 'n
  max_b :: 'n

definition newBuckets :: "'n number \<Rightarrow> nat \<Rightarrow> heap \<Rightarrow> 'n buckets \<times> heap" where
  "newBuckets N n h =
     (let (c, h') = make_uint64s n h
      in (\<lparr>counts = c, count = 0, sum_b = num_zero N, min_b = num_zero N,
           max_b = num_zero N\<rparr>, h'))"

text \<open>
  \<open>bin\<close> indexes \<open>b.counts\<close> first: an index out of range panics before anything is
  written.
\<close>

definition bin :: "'n number \<Rightarrow> nat \<Rightarrow> 'n \<Rightarrow> 'n buckets \<Rightarrow> heap \<Rightarrow> panic + 'n buckets \<times> heap" where
  "bin N idx val b h =
     (let cs = uint64s h (counts b)
      in if length cs \<le> idx then Inl IndexOutOfRange
         else
           Inr (b\<lparr>count := count b + 1,
                  sum_b := num_add N (sum_b b) val,
                  min_b := (if num_lt N val (min_b b) then val else min_b b),
                  max_b := (if num_lt N val (min_b b) then max_b b
                            else if num_lt N (max_b b) val then val else max_b b)\<rparr>,
                h\<lparr>uint64s := (uint64s h)(counts b := cs[idx := cs ! idx + 1])\<rparr>))"

subsection \<open>histValues\<close>

text \<open>
  The map holds pointers to \<open>buckets\<close>; no pointer leaves the map, so the map holds the
  structs here, and a struct's \<open>counts\<close> is the address of its array. The attribute
  set is an opaque comparable key, the type variable \<open>'a\<close>.
\<close>

record ('a, 'n) histValues =
  bounds :: addr
  values_hv :: "'a \<rightharpoonup> 'n buckets"

text \<open>
  \<open>newHistValues\<close> reads the caller's slice once, to copy it: the argument is the content
  of that slice at the call.
\<close>

definition newHistValues :: "float64 list \<Rightarrow> heap \<Rightarrow> ('a, 'n) histValues \<times> heap" where
  "newHistValues bs h =
     (let (b, h1) = make_float64s (length bs) h;
          h2 = h1\<lparr>float64s := (float64s h1)(b := copy_elems (float64s h1 b) bs)\<rparr>;
          h3 = h2\<lparr>float64s := (float64s h2)(b := Float64s (float64s h2 b))\<rparr>
      in (\<lparr>bounds = b, values_hv = Map.empty\<rparr>, h3))"

definition Aggregate ::
  "'n number \<Rightarrow> 'n \<Rightarrow> 'a \<Rightarrow> ('a, 'n, 'z) histValues_scheme \<Rightarrow> heap \<Rightarrow>
     panic + ('a, 'n, 'z) histValues_scheme \<times> heap" where
  "Aggregate N val attr s h =
     (let idx = SearchFloat64s (float64s h (bounds s)) (num_float64 N val)
      in case values_hv s attr of
           Some b \<Rightarrow>
             (case bin N idx val b h of
                Inl e \<Rightarrow> Inl e
              | Inr (b', h') \<Rightarrow> Inr (s\<lparr>values_hv := (values_hv s)(attr \<mapsto> b')\<rparr>, h'))
         | None \<Rightarrow>
             (let (b0, h1) = newBuckets N (length (float64s h (bounds s)) + 1) h;
                  b = b0\<lparr>min_b := val, max_b := val\<rparr>
              in case bin N idx val b h1 of
                   Inl e \<Rightarrow> Inl e
                 | Inr (b', h') \<Rightarrow> Inr (s\<lparr>values_hv := (values_hv s)(attr \<mapsto> b')\<rparr>, h')))"

subsection \<open>Package metricdata: what a snapshot returns\<close>

datatype Temporality = CumulativeTemporality | DeltaTemporality

text \<open>An \<open>Extrema\<close> is a value with a validity flag; the zero \<open>Extrema\<close> is \<open>None\<close>.\<close>

record ('a, 'n) HistogramDataPoint =
  Attributes :: 'a
  StartTime :: time
  Time :: time
  Count :: uint64
  Bounds :: addr
  BucketCounts :: addr
  Min_dp :: "'n option"
  Max_dp :: "'n option"
  Sum_dp :: 'n

record ('a, 'n) Histogram =
  DataPoints :: "('a, 'n) HistogramDataPoint list"
  Temporality :: Temporality

text \<open>The interface \<open>metricdata.Aggregation\<close> holds a \<open>Histogram\<close> or is \<open>nil\<close>.\<close>

type_synonym ('a, 'n) Aggregation = "('a, 'n) Histogram option"

subsection \<open>deltaHistogram and cumulativeHistogram\<close>

record ExplicitBucketHistogram =
  Boundaries :: "float64 list"
  NoMinMax :: bool

text \<open>
  Both structs embed \<open>*histValues\<close> and add the same two fields. \<open>now()\<close> is an
  argument of the functions that read the clock.
\<close>

record ('a, 'n) histogram = "('a, 'n) histValues" +
  noMinMax :: bool
  start :: time

type_synonym ('a, 'n) deltaHistogram = "('a, 'n) histogram"

type_synonym ('a, 'n) cumulativeHistogram = "('a, 'n) histogram"

definition newHistogram ::
  "ExplicitBucketHistogram \<Rightarrow> time \<Rightarrow> heap \<Rightarrow> ('a, 'n) histogram \<times> heap" where
  "newHistogram cfg t h =
     (let (hv, h') = newHistValues (Boundaries cfg) h
      in (\<lparr>bounds = bounds hv, values_hv = values_hv hv, noMinMax = NoMinMax cfg,
           start = t\<rparr>, h'))"

definition newDeltaHistogram ::
  "ExplicitBucketHistogram \<Rightarrow> time \<Rightarrow> heap \<Rightarrow> ('a, 'n) deltaHistogram \<times> heap" where
  "newDeltaHistogram = newHistogram"

definition newCumulativeHistogram ::
  "ExplicitBucketHistogram \<Rightarrow> time \<Rightarrow> heap \<Rightarrow> ('a, 'n) cumulativeHistogram \<times> heap" where
  "newCumulativeHistogram = newHistogram"

text \<open>
  The data point of one map entry: \<open>bnds\<close> and \<open>cnts\<close> are the slices stored in
  \<open>Bounds\<close> and \<open>BucketCounts\<close>.
\<close>

definition data_point ::
  "('a, 'n) histogram \<Rightarrow> time \<Rightarrow> addr \<Rightarrow> addr \<Rightarrow> 'a \<Rightarrow> 'n buckets \<Rightarrow>
     ('a, 'n) HistogramDataPoint" where
  "data_point s t bnds cnts a b =
     \<lparr>Attributes = a, StartTime = start s, Time = t, Count = count b, Bounds = bnds,
      BucketCounts = cnts,
      Min_dp = (if \<not> noMinMax s then Some (min_b b) else None),
      Max_dp = (if \<not> noMinMax s then Some (max_b b) else None),
      Sum_dp = sum_b b\<rparr>"

text \<open>
  \<open>for a, b := range s.values\<close> visits the keys of the map in an order that Go leaves
  open: the order is the argument \<open>ks\<close> of the two snapshot functions, and
  \<open>range_order ks m\<close> says that \<open>ks\<close> lists the keys of \<open>m\<close>, each once.
\<close>

definition range_order :: "'a list \<Rightarrow> ('a \<rightharpoonup> 'v) \<Rightarrow> bool" where
  "range_order ks m = (distinct ks \<and> set ks = dom m)"

fun deltaHistogram_range ::
  "time \<Rightarrow> addr \<Rightarrow> 'a list \<Rightarrow> ('a, 'n) deltaHistogram \<Rightarrow> ('a, 'n) HistogramDataPoint list \<Rightarrow>
     ('a, 'n) deltaHistogram \<times> ('a, 'n) HistogramDataPoint list" where
  "deltaHistogram_range t bnds [] s dps = (s, dps)"
| "deltaHistogram_range t bnds (a # ks) s dps =
     (case values_hv s a of
        None \<Rightarrow> deltaHistogram_range t bnds ks s dps
      | Some b \<Rightarrow>
          deltaHistogram_range t bnds ks
            (s\<lparr>values_hv := (values_hv s)(a := None)\<rparr>)
            (dps @ [data_point s t bnds (counts b) a b]))"

definition deltaHistogram_Aggregation ::
  "time \<Rightarrow> 'a list \<Rightarrow> ('a, 'n) deltaHistogram \<Rightarrow> heap \<Rightarrow>
     ('a, 'n) Aggregation \<times> ('a, 'n) deltaHistogram \<times> heap" where
  "deltaHistogram_Aggregation t ks s h =
     (if values_hv s = Map.empty then (None, s, h)
      else
        let (bnds, h1) = make_float64s (length (float64s h (bounds s))) h;
            h2 = copy_float64s bnds (bounds s) h1;
            (s', dps) = deltaHistogram_range t bnds ks s []
        in (Some \<lparr>DataPoints = dps, Temporality = DeltaTemporality\<rparr>, s'\<lparr>start := t\<rparr>, h2))"

fun cumulativeHistogram_range ::
  "time \<Rightarrow> addr \<Rightarrow> 'a list \<Rightarrow> ('a, 'n) cumulativeHistogram \<Rightarrow> heap \<Rightarrow>
     ('a, 'n) HistogramDataPoint list \<Rightarrow> heap \<times> ('a, 'n) HistogramDataPoint list" where
  "cumulativeHistogram_range t bnds [] s h dps = (h, dps)"
| "cumulativeHistogram_range t bnds (a # ks) s h dps =
     (case values_hv s a of
        None \<Rightarrow> cumulativeHistogram_range t bnds ks s h dps
      | Some b \<Rightarrow>
          (let (cnts, h1) = make_uint64s (length (uint64s h (counts b))) h;
               h2 = copy_uint64s cnts (counts b) h1
           in cumulativeHistogram_range t bnds ks s h2
                (dps @ [data_point s t bnds cnts a b])))"

definition cumulativeHistogram_Aggregation ::
  "time \<Rightarrow> 'a list \<Rightarrow> ('a, 'n) cumulativeHistogram \<Rightarrow> heap \<Rightarrow>
     ('a, 'n) Aggregation \<times> ('a, 'n) cumulativeHistogram \<times> heap" where
  "cumulativeHistogram_Aggregation t ks s h =
     (if values_hv s = Map.empty then (None, s, h)
      else
        let (bnds, h1) = make_float64s (length (float64s h (bounds s))) h;
            h2 = copy_float64s bnds (bounds s) h1;
            (h3, dps) = cumulativeHistogram_range t bnds ks s h2 []
        in (Some \<lparr>DataPoints = dps, Temporality = CumulativeTemporality\<rparr>, s, h3))"

subsection \<open>An aggregator in use\<close>

text \<open>
  The interface \<open>aggregator[N]\<close> has the methods \<open>Aggregate\<close> and \<open>Aggregation\<close>; the
  temporality tells which of the two implementations a value of the interface is. A
  user of one aggregator makes a sequence of calls; \<open>run\<close> makes them in order, stops
  at a panic and returns what the snapshots returned.
\<close>

definition Aggregation ::
  "Temporality \<Rightarrow> time \<Rightarrow> 'a list \<Rightarrow> ('a, 'n) histogram \<Rightarrow> heap \<Rightarrow>
     ('a, 'n) Aggregation \<times> ('a, 'n) histogram \<times> heap" where
  "Aggregation tmp t ks s h =
     (case tmp of
        DeltaTemporality \<Rightarrow> deltaHistogram_Aggregation t ks s h
      | CumulativeTemporality \<Rightarrow> cumulativeHistogram_Aggregation t ks s h)"

datatype ('a, 'n) call = Aggregate_call 'n 'a | Aggregation_call time "'a list"

fun run ::
  "'n number \<Rightarrow> Temporality \<Rightarrow> ('a, 'n) call list \<Rightarrow> ('a, 'n) histogram \<Rightarrow> heap \<Rightarrow>
     panic + ('a, 'n) Aggregation list \<times> ('a, 'n) histogram \<times> heap" where
  "run N tmp [] s h = Inr ([], s, h)"
| "run N tmp (Aggregate_call v a # cs) s h =
     (case Aggregate N v a s h of
        Inl e \<Rightarrow> Inl e
      | Inr (s', h') \<Rightarrow> run N tmp cs s' h')"
| "run N tmp (Aggregation_call t ks # cs) s h =
     (case Aggregation tmp t ks s h of
        (out, s', h') \<Rightarrow>
          (case run N tmp cs s' h' of
             Inl e \<Rightarrow> Inl e
           | Inr (outs, s'', h'') \<Rightarrow> Inr (out # outs, s'', h'')))"

text \<open>
  What a reader of a data point sees: its fields, with the two slices read in the store.
  A holder of a slice can also write its elements; the length of the array stays.
\<close>

definition contents ::
  "heap \<Rightarrow> ('a, 'n) HistogramDataPoint \<Rightarrow>
     'a \<times> time \<times> time \<times> uint64 \<times> float64 list \<times> uint64 list \<times> 'n option \<times> 'n option \<times> 'n" where
  "contents h dp =
     (Attributes dp, StartTime dp, Time dp, Count dp, float64s h (Bounds dp),
      uint64s h (BucketCounts dp), Min_dp dp, Max_dp dp, Sum_dp dp)"

definition points :: "('a, 'n) Aggregation \<Rightarrow> ('a, 'n) HistogramDataPoint list" where
  "points out = (case out of None \<Rightarrow> [] | Some H \<Rightarrow> DataPoints H)"

definition write_uint64s :: "addr \<Rightarrow> uint64 list \<Rightarrow> heap \<Rightarrow> heap" where
  "write_uint64s a xs h =
     (if length xs = length (uint64s h a) then h\<lparr>uint64s := (uint64s h)(a := xs)\<rparr> else h)"

definition write_float64s :: "addr \<Rightarrow> float64 list \<Rightarrow> heap \<Rightarrow> heap" where
  "write_float64s a xs h =
     (if length xs = length (float64s h a) then h\<lparr>float64s := (float64s h)(a := xs)\<rparr> else h)"

text \<open>
  The state of the accumulators as the aggregator holds it: the boundaries, and for each
  attribute set the fields of its \<open>buckets\<close> with the bucket counts read in the store.
\<close>

definition accumulators ::
  "('a, 'n, 'z) histValues_scheme \<Rightarrow> heap \<Rightarrow>
     float64 list \<times> ('a \<rightharpoonup> uint64 list \<times> uint64 \<times> 'n \<times> 'n \<times> 'n)" where
  "accumulators s h =
     (float64s h (bounds s),
      (\<lambda>a. case values_hv s a of
              None \<Rightarrow> None
            | Some b \<Rightarrow> Some (uint64s h (counts b), count b, sum_b b, min_b b, max_b b)))"

section \<open>Package metric: instruments\<close>

subsection \<open>Synchronous instruments\<close>

text \<open>
  \<open>ctx.Err()\<close> is \<open>nil\<close> until the context is done. A \<open>Measure\<close> is a closure over the
  aggregator it feeds: a function that changes the state \<open>'w\<close> of the aggregators.
  \<open>int64Inst\<close> and \<open>float64Inst\<close> differ in the number type only.
\<close>

datatype context_error = Canceled | DeadlineExceeded

record Context =
  Err :: "context_error option"

type_synonym ('n, 'a, 'w) Measure = "Context \<Rightarrow> 'n \<Rightarrow> 'a \<Rightarrow> 'w \<Rightarrow> 'w"

record ('n, 'a, 'w) Inst =
  measures :: "('n, 'a, 'w) Measure list"

fun range_measures ::
  "('n, 'a, 'w) Measure list \<Rightarrow> Context \<Rightarrow> 'n \<Rightarrow> 'a \<Rightarrow> 'w \<Rightarrow> 'w" where
  "range_measures [] ctx val s w = w"
| "range_measures (m # ms) ctx val s w = range_measures ms ctx val s (m ctx val s w)"

definition int64Inst_aggregate ::
  "(int64, 'a, 'w) Inst \<Rightarrow> Context \<Rightarrow> int64 \<Rightarrow> 'a \<Rightarrow> 'w \<Rightarrow> 'w" where
  "int64Inst_aggregate i ctx val s w =
     (if Err ctx \<noteq> None then w else range_measures (measures i) ctx val s w)"

definition float64Inst_aggregate ::
  "(float64, 'a, 'w) Inst \<Rightarrow> Context \<Rightarrow> float64 \<Rightarrow> 'a \<Rightarrow> 'w \<Rightarrow> 'w" where
  "float64Inst_aggregate i ctx val s w =
     (if Err ctx \<noteq> None then w else range_measures (measures i) ctx val s w)"

text \<open>
  \<open>Add\<close> and \<open>Record\<close> read the attribute set out of their options and call \<open>aggregate\<close>;
  \<open>attrs\<close> is that attribute set.
\<close>

definition int64Inst_Add ::
  "(int64, 'a, 'w) Inst \<Rightarrow> Context \<Rightarrow> int64 \<Rightarrow> 'a \<Rightarrow> 'w \<Rightarrow> 'w" where
  "int64Inst_Add i ctx val attrs w = int64Inst_aggregate i ctx val attrs w"

definition int64Inst_Record ::
  "(int64, 'a, 'w) Inst \<Rightarrow> Context \<Rightarrow> int64 \<Rightarrow> 'a \<Rightarrow> 'w \<Rightarrow> 'w" where
  "int64Inst_Record i ctx val attrs w = int64Inst_aggregate i ctx val attrs w"

definition float64Inst_Add ::
  "(float64, 'a, 'w) Inst \<Rightarrow> Context \<Rightarrow> float64 \<Rightarrow> 'a \<Rightarrow> 'w \<Rightarrow> 'w" where
  "float64Inst_Add i ctx val attrs w = float64Inst_aggregate i ctx val attrs w"

definition float64Inst_Record ::
  "(float64, 'a, 'w) Inst \<Rightarrow> Context \<Rightarrow> float64 \<Rightarrow> 'a \<Rightarrow> 'w \<Rightarrow> 'w" where
  "float64Inst_Record i ctx val attrs w = float64Inst_aggregate i ctx val attrs w"

text \<open>
  A measure that writes down, in a log, its position in the list and what it was called
  with: the log of a recording tells which measures ran, with what, in what order.
\<close>

definition logging :: "nat \<Rightarrow> ('n, 'a, (nat \<times> 'n \<times> 'a) list) Measure" where
  "logging k ctx val s w = w @ [(k, val, s)]"

subsection \<open>Observable instruments\<close>

record Scope =
  Name :: string
  Version :: string
  SchemaURL :: string

datatype InstrumentKind =
  instrumentKindUndefined
  | InstrumentKindCounter
  | InstrumentKindUpDownCounter
  | InstrumentKindHistogram
  | InstrumentKindObservableCounter
  | InstrumentKindObservableUpDownCounter
  | InstrumentKindObservableGauge

text \<open>
  An error is made by \<open>errors.New\<close> from a text or by \<open>fmt.Errorf\<close> from a format and
  its arguments; the result type \<open>error\<close> of Go is \<open>error option\<close>, \<open>nil\<close> is \<open>None\<close>.
\<close>

datatype error = errors_New string | fmt_Errorf string "string list"

text \<open>
  The struct \<open>observable\<close> with the fields of the embedded \<open>observablID\<close>; its fields
  \<open>unit\<close> and \<open>measures\<close> are \<open>unit_o\<close> and \<open>measures_o\<close> here.
\<close>

record ('n, 'a, 'w) observable =
  name :: string
  description :: string
  kind :: InstrumentKind
  unit_o :: string
  scope :: Scope
  measures_o :: "('n, 'a, 'w) Measure list"

definition errEmptyAgg :: error where
  "errEmptyAgg = errors_New ''no aggregators for observable instrument''"

definition registerable :: "('n, 'a, 'w) observable \<Rightarrow> Scope \<Rightarrow> error option" where
  "registerable ob sc =
     (if length (measures_o ob) = 0 then Some errEmptyAgg
      else if sc \<noteq> scope ob then
        Some (fmt_Errorf
          ''invalid registration: observable %q from Meter %q, registered with Meter %q''
          [name ob, Name (scope ob), Name sc])
      else None)"

section \<open>Invariants\<close>

definition sorted_Float64s :: "float64 list \<Rightarrow> bool" where
  "sorted_Float64s xs = sorted_wrt (\<lambda>a b. \<not> Float64Slice_Less b a) xs"

text \<open>
  What holds of an aggregator and the store between calls: its slices are allocated, the
  boundaries are sorted, every \<open>buckets\<close> has one more bin than there are boundaries and
  its \<open>count\<close> is the sum of its bins (in \<open>uint64\<close>), and no two share an array.
\<close>

definition invariant :: "('a, 'n, 'z) histValues_scheme \<Rightarrow> heap \<Rightarrow> bool" where
  "invariant s h =
     (bounds s < free h \<and> sorted_Float64s (float64s h (bounds s)) \<and>
      (\<forall>a b. values_hv s a = Some b \<longrightarrow>
         counts b < free h \<and>
         length (uint64s h (counts b)) = length (float64s h (bounds s)) + 1 \<and>
         count b = sum_list (uint64s h (counts b))) \<and>
      (\<forall>a a' b b'. values_hv s a = Some b \<and> values_hv s a' = Some b' \<and> counts b = counts b'
         \<longrightarrow> a = a'))"

section \<open>Notions used in the statements\<close>

text \<open>The fields of a \<open>buckets\<close> after \<open>bin\<close> has counted one more value.\<close>

definition bumped :: "'n number \<Rightarrow> 'n \<Rightarrow> 'n buckets \<Rightarrow> 'n buckets" where
  "bumped N val b =
     b\<lparr>count := count b + 1,
       sum_b := num_add N (sum_b b) val,
       min_b := (if num_lt N val (min_b b) then val else min_b b),
       max_b := (if num_lt N val (min_b b) then max_b b
                 else if num_lt N (max_b b) val then val else max_b b)\<rparr>"

text \<open>
  What a snapshot taken at time \<open>t\<close> reports for one entry of the map, and for the
  entries met in the order \<open>ks\<close>: the fields of the data point with the two slices read
  in the store as it is before the snapshot.
\<close>

definition report ::
  "('a, 'n) histogram \<Rightarrow> heap \<Rightarrow> time \<Rightarrow> 'a \<Rightarrow> 'n buckets \<Rightarrow>
     'a \<times> time \<times> time \<times> uint64 \<times> float64 list \<times> uint64 list \<times> 'n option \<times> 'n option \<times> 'n" where
  "report s h t a b =
     (a, start s, t, count b, float64s h (bounds s), uint64s h (counts b),
      (if noMinMax s then None else Some (min_b b)),
      (if noMinMax s then None else Some (max_b b)), sum_b b)"

definition reports ::
  "('a, 'n) histogram \<Rightarrow> heap \<Rightarrow> time \<Rightarrow> 'a list \<Rightarrow>
     ('a \<times> time \<times> time \<times> uint64 \<times> float64 list \<times> uint64 list \<times> 'n option \<times> 'n option \<times> 'n) list" where
  "reports s h t ks = List.map_filter (\<lambda>a. map_option (report s h t a) (values_hv s a)) ks"

text \<open>The store before anything is allocated.\<close>

definition empty_heap :: heap where
  "empty_heap = \<lparr>uint64s = (\<lambda>x. []), float64s = (\<lambda>x. []), free = 0\<rparr>"

text \<open>
  The bucket counts recorded for an attribute set: those of its \<open>buckets\<close>, or one zero
  per bucket while it has none.
\<close>

definition bins :: "('a, 'n, 'z) histValues_scheme \<Rightarrow> heap \<Rightarrow> 'a \<Rightarrow> uint64 list" where
  "bins s h a =
     (case values_hv s a of
        None \<Rightarrow> replicate (length (float64s h (bounds s)) + 1) 0
      | Some b \<Rightarrow> uint64s h (counts b))"

text \<open>
  \<open><\<close> orders the values of \<open>V\<close>: it is irreflexive and transitive on them, and two
  different values of \<open>V\<close> are comparable. That holds of every set of \<open>int64\<close> values
  and of every set of \<open>float64\<close> values without \<open>NaN\<close>.
\<close>

definition ordered :: "'n number \<Rightarrow> 'n set \<Rightarrow> bool" where
  "ordered N V =
     ((\<forall>x\<in>V. \<not> num_lt N x x) \<and>
      (\<forall>x\<in>V. \<forall>y\<in>V. \<forall>z\<in>V. num_lt N x y \<and> num_lt N y z \<longrightarrow> num_lt N x z) \<and>
      (\<forall>x\<in>V. \<forall>y\<in>V. x = y \<or> num_lt N x y \<or> num_lt N y x))"

text \<open>
  The \<open>min\<close> and \<open>max\<close> of \<open>b\<close> are the least and the greatest value of \<open>V\<close>.
\<close>

definition extrema :: "'n number \<Rightarrow> 'n set \<Rightarrow> 'n buckets \<Rightarrow> bool" where
  "extrema N V b =
     (min_b b \<in> V \<and> max_b b \<in> V \<and>
      (\<forall>x\<in>V. x = min_b b \<or> num_lt N (min_b b) x) \<and>
      (\<forall>x\<in>V. x = max_b b \<or> num_lt N x (max_b b)))"

text \<open>The attribute sets that the calls of \<open>Aggregate\<close> in a sequence of calls observe.\<close>

fun observed :: "('a, 'n) call list \<Rightarrow> 'a set" where
  "observed [] = {}"
| "observed (Aggregate_call v a # cs) = insert a (observed cs)"
| "observed (Aggregation_call t ks # cs) = observed cs"

text \<open>The number of calls of \<open>Aggregate\<close> in a sequence of calls.\<close>

fun aggregates :: "('a, 'n) call list \<Rightarrow> nat" where
  "aggregates [] = 0"
| "aggregates (Aggregate_call v a # cs) = Suc (aggregates cs)"
| "aggregates (Aggregation_call t ks # cs) = aggregates cs"

section \<open>Sorting and searching\<close>

lemma Less_NaN_left [simp]: "Float64Slice_Less NaN b = (b \<noteq> NaN)"
  by (cases b; simp add: Float64Slice_Less_def)

lemma Less_NaN_right [simp]: "Float64Slice_Less a NaN = False"
  by (cases a; simp add: Float64Slice_Less_def)

lemma not_Less_trans:
  "\<not> Float64Slice_Less b a \<Longrightarrow> \<not> Float64Slice_Less c b \<Longrightarrow> \<not> Float64Slice_Less c a"
  by (cases a; cases b; cases c; simp add: Float64Slice_Less_def)

lemma Less_asym: "Float64Slice_Less a b \<Longrightarrow> \<not> Float64Slice_Less b a"
  by (cases a; cases b; simp add: Float64Slice_Less_def) 

lemma set_insert_Float64 [simp]: "set (insert_Float64 x xs) = insert x (set xs)"
  by (induction xs) auto

lemma length_insert_Float64 [simp]: "length (insert_Float64 x xs) = Suc (length xs)"
  by (induction xs) auto

lemma length_Float64s [simp]: "length (Float64s xs) = length xs"
  by (induction xs) auto

lemma filter_insert_Float64:
  "length (filter P (insert_Float64 x xs)) = length (filter P (x # xs))"
  by (induction xs) auto

lemma filter_Float64s: "length (filter P (Float64s xs)) = length (filter P xs)"
  by (induction xs) (auto simp: filter_insert_Float64)

lemma sorted_insert_Float64:
  "sorted_Float64s xs \<Longrightarrow> sorted_Float64s (insert_Float64 x xs)"
  unfolding sorted_Float64s_def
proof (induction xs)
  case Nil
  then show ?case by simp
next
  case (Cons y ys)
  show ?case
  proof (cases "Float64Slice_Less y x")
    case True
    then have "\<not> Float64Slice_Less x y" by (rule Less_asym)
    with Cons True show ?thesis by auto
  next
    case False
    have "\<not> Float64Slice_Less z x" if "z \<in> set ys" for z
      using that Cons.prems False not_Less_trans [of y x z] by auto
    with Cons False show ?thesis by auto
  qed
qed

lemma sorted_Float64s: "sorted_Float64s (Float64s xs)"
  by (induction xs) (simp_all add: sorted_insert_Float64, simp add: sorted_Float64s_def)

lemma ge_mono:
  "\<not> Float64Slice_Less b a \<Longrightarrow> float64_ge a x \<Longrightarrow> float64_ge b x"
  by (cases a; cases b; cases x; auto simp add: Float64Slice_Less_def float64_ge_def float64_eq_def)

lemma Search_loop_unfold:
  "Search_loop f i j =
     (if i < j then (if \<not> f ((i + j) div 2) then Search_loop f ((i + j) div 2 + 1) j
                     else Search_loop f i ((i + j) div 2))
      else i)"
  by (subst Search_loop.simps) (simp add: Let_def)

lemma Search_loop_spec:
  assumes mono: "\<forall>a b. a \<le> b \<and> b < n \<and> f a \<longrightarrow> f b"
  shows "i \<le> j \<Longrightarrow> j \<le> n \<Longrightarrow> \<forall>k<i. \<not> f k \<Longrightarrow> \<forall>k. j \<le> k \<and> k < n \<longrightarrow> f k \<Longrightarrow>
         Search_loop f i j \<le> n \<and> (\<forall>k<Search_loop f i j. \<not> f k)
           \<and> (\<forall>k. Search_loop f i j \<le> k \<and> k < n \<longrightarrow> f k)"
proof (induction "j - i" arbitrary: i j rule: less_induct)
  case less
  show ?case
  proof (cases "i < j")
    case False
    with less.prems have ij: "i = j" by simp
    then have "Search_loop f i j = j" by (subst Search_loop_unfold) simp
    with less.prems ij show ?thesis by simp
  next
    case True
    define h where "h = (i + j) div 2"
    have hb: "i \<le> h" "h < j" using True by (auto simp: h_def)
    show ?thesis
    proof (cases "f h")
      case fh: True
      have eq: "Search_loop f i j = Search_loop f i h"
        using True fh by (subst Search_loop_unfold) (simp add: h_def)
      have up: "\<forall>k. h \<le> k \<and> k < n \<longrightarrow> f k" using mono fh by blast
      have "h - i < j - i" using hb by simp
      from less.hyps [OF this hb(1) _ less.prems(3) up] hb less.prems(2)
      show ?thesis unfolding eq by simp
    next
      case nfh: False
      have eq: "Search_loop f i j = Search_loop f (h + 1) j"
        using True nfh by (subst Search_loop_unfold) (simp add: h_def)
      have lo: "\<forall>k<h + 1. \<not> f k"
      proof (intro allI impI)
        fix k assume "k < h + 1"
        then have kh: "k \<le> h" by simp
        have "h < n" using hb less.prems(2) by simp
        with mono kh nfh show "\<not> f k" by blast
      qed
      have "j - (h + 1) < j - i" using hb by simp
      from less.hyps [OF this _ less.prems(2) lo less.prems(4)] hb
      show ?thesis unfolding eq by simp
    qed
  qed
qed

lemma Search_spec:
  assumes "\<forall>a b. a \<le> b \<and> b < n \<and> f a \<longrightarrow> f b"
  shows "Search n f \<le> n \<and> (\<forall>k<Search n f. \<not> f k) \<and> (\<forall>k. Search n f \<le> k \<and> k < n \<longrightarrow> f k)"
  unfolding Search_def by (rule Search_loop_spec [OF assms]) auto

lemma count_split:
  assumes "r \<le> length xs" "\<forall>k<r. \<not> P (xs ! k)" "\<forall>k. r \<le> k \<and> k < length xs \<longrightarrow> P (xs ! k)"
  shows "length (filter (\<lambda>b. \<not> P b) xs) = r"
proof -
  have a: "filter (\<lambda>b. \<not> P b) (take r xs) = take r xs"
    using assms by (auto simp: filter_id_conv in_set_conv_nth)
  have b: "filter (\<lambda>b. \<not> P b) (drop r xs) = []"
    using assms by (auto simp: filter_empty_conv in_set_conv_nth)
  have "filter (\<lambda>b. \<not> P b) xs = filter (\<lambda>b. \<not> P b) (take r xs @ drop r xs)" by simp
  also have "\<dots> = take r xs" unfolding filter_append a b by simp
  finally show ?thesis using assms(1) by simp
qed

lemma SearchFloat64s_sorted:
  assumes "sorted_Float64s a"
  shows "SearchFloat64s a x = length (filter (\<lambda>b. \<not> float64_ge b x) a)"
proof -
  let ?f = "\<lambda>i. float64_ge (a ! i) x"
  have mono: "\<forall>i j. i \<le> j \<and> j < length a \<and> ?f i \<longrightarrow> ?f j"
  proof (intro allI impI)
    fix i j assume h: "i \<le> j \<and> j < length a \<and> ?f i"
    show "?f j"
    proof (cases "i = j")
      case True with h show ?thesis by simp
    next
      case False
      with h have "i < j" by simp
      with assms h have "\<not> Float64Slice_Less (a ! j) (a ! i)"
        by (simp add: sorted_Float64s_def sorted_wrt_iff_nth_less)
      with h show ?thesis by (blast intro: ge_mono)
    qed
  qed
  from Search_spec [OF mono] show ?thesis
    unfolding SearchFloat64s_def by (intro count_split [symmetric]) blast+
qed


section \<open>Instruments\<close>

lemma range_measures_foldl:
  "range_measures ms ctx val s w = foldl (\<lambda>w m. m ctx val s w) w ms"
  by (induction ms arbitrary: w) simp_all

lemma range_measures_logging:
  "range_measures (map logging ks) ctx val s w = w @ map (\<lambda>k. (k, val, s)) ks"
  by (induction ks arbitrary: w) (simp_all add: logging_def)

text \<open>
  C8: a recording (\<open>Add\<close> or \<open>Record\<close>, on \<open>int64Inst\<close> or \<open>float64Inst\<close>) whose context
  is already canceled or past its deadline changes nothing and calls no measure;
  otherwise it calls every measure of the instrument, in the order of the list, each
  with the same value and attribute set. With measures that log their calls, the log
  grows by exactly one entry per measure, in order, or not at all.
\<close>

theorem aggregate_calls_every_measure_in_order:
  "int64Inst_aggregate i ctx val s w =
     (if Err ctx = None then foldl (\<lambda>w m. m ctx val s w) w (measures i) else w)
   \<and> float64Inst_aggregate j ctx fval s w =
     (if Err ctx = None then foldl (\<lambda>w m. m ctx fval s w) w (measures j) else w)
   \<and> int64Inst_aggregate \<lparr>measures = map logging [0..<n]\<rparr> ctx val s lg =
     lg @ (if Err ctx = None then map (\<lambda>k. (k, val, s)) [0..<n] else [])
   \<and> float64Inst_aggregate \<lparr>measures = map logging [0..<n]\<rparr> ctx fval s flg =
     flg @ (if Err ctx = None then map (\<lambda>k. (k, fval, s)) [0..<n] else [])
   \<and> int64Inst_Add i ctx val s w = int64Inst_aggregate i ctx val s w
   \<and> int64Inst_Record i ctx val s w = int64Inst_aggregate i ctx val s w
   \<and> float64Inst_Add j ctx fval s w = float64Inst_aggregate j ctx fval s w
   \<and> float64Inst_Record j ctx fval s w = float64Inst_aggregate j ctx fval s w"
  by (simp add: int64Inst_aggregate_def float64Inst_aggregate_def range_measures_foldl [symmetric]
      range_measures_logging int64Inst_Add_def int64Inst_Record_def float64Inst_Add_def
      float64Inst_Record_def)

text \<open>
  C9, as stated, fails where an observable has no aggregators and is registered with
  another scope than its own: the result is the error \<open>errEmptyAgg\<close>, not the error
  that names the two scopes.
\<close>

theorem registerable_empty_and_mismatch_counterexample:
  "\<lparr>Name = ''b'', Version = [], SchemaURL = []\<rparr>
     \<noteq> scope \<lparr>name = ''x'', description = [], kind = InstrumentKindObservableGauge,
         unit_o = [], scope = \<lparr>Name = ''a'', Version = [], SchemaURL = []\<rparr>,
         measures_o = ([] :: (int64, nat, unit) Measure list)\<rparr>
   \<and> registerable
       \<lparr>name = ''x'', description = [], kind = InstrumentKindObservableGauge,
         unit_o = [], scope = \<lparr>Name = ''a'', Version = [], SchemaURL = []\<rparr>,
         measures_o = ([] :: (int64, nat, unit) Measure list)\<rparr>
       \<lparr>Name = ''b'', Version = [], SchemaURL = []\<rparr>
     = Some errEmptyAgg
   \<and> errEmptyAgg \<noteq>
       fmt_Errorf ''invalid registration: observable %q from Meter %q, registered with Meter %q''
         [''x'', ''a'', ''b'']"
  by (simp add: registerable_def errEmptyAgg_def)

text \<open>
  C9, amended: \<open>registerable\<close> checks the aggregators first. With no aggregators it
  returns \<open>errEmptyAgg\<close>, whatever the scope; with at least one aggregator and a scope
  other than the one the observable was created under it returns the error made from the
  observable's name, the name of its own scope and the name of the registering scope;
  with at least one aggregator and the same scope it returns \<open>nil\<close>.
\<close>

theorem registerable_cases:
  "registerable ob sc =
     (if measures_o ob = [] then Some errEmptyAgg
      else if sc = scope ob then None
      else Some (fmt_Errorf
             ''invalid registration: observable %q from Meter %q, registered with Meter %q''
             [name ob, Name (scope ob), Name sc]))"
  by (simp add: registerable_def)

section \<open>The invariant of an aggregator\<close>

lemma copy_elems_same_length [simp]: "length dst = length src \<Longrightarrow> copy_elems dst src = src"
  by (simp add: copy_elems_def)

lemma newHistValues_eq:
  "newHistValues bs h =
     (\<lparr>bounds = free h, values_hv = Map.empty\<rparr>,
      h\<lparr>float64s := (float64s h)(free h := Float64s bs), free := Suc (free h)\<rparr>)"
  by (simp add: newHistValues_def make_float64s_def)

lemma newHistogram_eq:
  "newHistogram cfg t h =
     (\<lparr>bounds = free h, values_hv = Map.empty, noMinMax = NoMinMax cfg, start = t\<rparr>,
      h\<lparr>float64s := (float64s h)(free h := Float64s (Boundaries cfg)), free := Suc (free h)\<rparr>)"
  by (simp add: newHistogram_def newHistValues_eq)

lemma invariant_newHistogram:
  "newHistogram cfg t h = (s, h') \<Longrightarrow> invariant s h'"
  by (auto simp: newHistogram_eq invariant_def sorted_Float64s)

lemma SearchFloat64s_le: "sorted_Float64s a \<Longrightarrow> SearchFloat64s a x \<le> length a"
  by (simp add: SearchFloat64s_sorted)

lemma sum_list_bump:
  "k < length xs \<Longrightarrow> sum_list (xs[k := xs ! k + 1]) = sum_list xs + (1 :: uint64)"
proof (induction xs arbitrary: k)
  case Nil
  then show ?case by simp
next
  case (Cons x xs)
  then show ?case by (cases k) simp_all
qed

lemma sum_list_fresh: "k < m \<Longrightarrow> sum_list ((replicate m (0::uint64))[k := 1]) = 1"
  using sum_list_bump [of k "replicate m 0"] by (simp add: sum_list_replicate)

lemma Aggregate_Some:
  assumes "invariant s h" "values_hv s a = Some b"
  shows "Aggregate N v a s h =
     Inr (s\<lparr>values_hv := (values_hv s)(a \<mapsto> bumped N v b)\<rparr>,
          h\<lparr>uint64s := (uint64s h)(counts b :=
              (uint64s h (counts b))[SearchFloat64s (float64s h (bounds s)) (num_float64 N v) :=
                 uint64s h (counts b) ! SearchFloat64s (float64s h (bounds s)) (num_float64 N v) + 1])\<rparr>)"
proof -
  have "SearchFloat64s (float64s h (bounds s)) (num_float64 N v) \<le> length (float64s h (bounds s))"
    using assms(1) by (simp add: invariant_def SearchFloat64s_le)
  moreover have "length (uint64s h (counts b)) = length (float64s h (bounds s)) + 1"
    using assms by (auto simp: invariant_def)
  ultimately show ?thesis
    using assms(2) by (simp add: Aggregate_def bin_def bumped_def Let_def)
qed

lemma Aggregate_None:
  assumes "invariant s h" "values_hv s a = None"
  shows "Aggregate N v a s h =
     Inr (s\<lparr>values_hv := (values_hv s)(a \<mapsto>
             \<lparr>counts = free h, count = 1, sum_b = num_add N (num_zero N) v, min_b = v, max_b = v\<rparr>)\<rparr>,
          h\<lparr>uint64s := (uint64s h)(free h :=
              (replicate (length (float64s h (bounds s)) + 1) 0)
                [SearchFloat64s (float64s h (bounds s)) (num_float64 N v) := 1]),
            free := Suc (free h)\<rparr>)"
proof -
  have "SearchFloat64s (float64s h (bounds s)) (num_float64 N v) \<le> length (float64s h (bounds s))"
    using assms(1) by (simp add: invariant_def SearchFloat64s_le)
  then show ?thesis
    using assms(2)
    by (simp add: Aggregate_def bin_def newBuckets_def make_uint64s_def Let_def split: nat.split)
qed

lemma bumped_simps [simp]:
  "counts (bumped N v b) = counts b"
  "count (bumped N v b) = count b + 1"
  "sum_b (bumped N v b) = num_add N (sum_b b) v"
  by (simp_all add: bumped_def)

lemma invariantI:
  assumes "bounds s < free h" "sorted_Float64s (float64s h (bounds s))"
    and "\<And>a b. values_hv s a = Some b \<Longrightarrow> counts b < free h"
    and "\<And>a b. values_hv s a = Some b \<Longrightarrow>
           length (uint64s h (counts b)) = length (float64s h (bounds s)) + 1"
    and "\<And>a b. values_hv s a = Some b \<Longrightarrow> count b = sum_list (uint64s h (counts b))"
    and "\<And>a a' b b'. values_hv s a = Some b \<Longrightarrow> values_hv s a' = Some b' \<Longrightarrow>
           counts b = counts b' \<Longrightarrow> a = a'"
  shows "invariant s h"
  unfolding invariant_def using assms by blast

lemma invariant_bounds: "invariant s h \<Longrightarrow> bounds s < free h"
  by (simp add: invariant_def)

lemma invariant_sorted: "invariant s h \<Longrightarrow> sorted_Float64s (float64s h (bounds s))"
  by (simp add: invariant_def)

lemma invariant_counts: "invariant s h \<Longrightarrow> values_hv s a = Some b \<Longrightarrow> counts b < free h"
  by (simp add: invariant_def)

lemma invariant_length:
  "invariant s h \<Longrightarrow> values_hv s a = Some b \<Longrightarrow>
     length (uint64s h (counts b)) = length (float64s h (bounds s)) + 1"
  by (simp add: invariant_def)

lemma invariant_count:
  "invariant s h \<Longrightarrow> values_hv s a = Some b \<Longrightarrow> count b = sum_list (uint64s h (counts b))"
  by (simp add: invariant_def)

lemma invariant_inj:
  "invariant s h \<Longrightarrow> values_hv s a = Some b \<Longrightarrow> values_hv s a' = Some b' \<Longrightarrow>
     counts b = counts b' \<Longrightarrow> a = a'"
  unfolding invariant_def by blast

lemma invariant_Aggregate:
  assumes inv: "invariant s h" and agg: "Aggregate N v a s h = Inr (s', h')"
  shows "invariant s' h'"
proof (cases "values_hv s a")
  case None
  let ?n = "length (float64s h (bounds s))"
  let ?i = "SearchFloat64s (float64s h (bounds s)) (num_float64 N v)"
  let ?b = "\<lparr>counts = free h, count = 1, sum_b = num_add N (num_zero N) v, min_b = v, max_b = v\<rparr>"
  have idx: "?i < ?n + 1"
    using invariant_sorted [OF inv] SearchFloat64s_le [of "float64s h (bounds s)" "num_float64 N v"]
    by simp
  from agg Aggregate_None [OF inv None, of N v]
  have s': "s' = s\<lparr>values_hv := (values_hv s)(a \<mapsto> ?b)\<rparr>"
    and h': "h' = h\<lparr>uint64s := (uint64s h)(free h := (replicate (?n + 1) 0)[?i := 1]),
                   free := Suc (free h)\<rparr>"
    by simp_all
  have fl: "float64s h' = float64s h" "free h' = Suc (free h)" "bounds s' = bounds s"
    by (simp_all add: s' h')
  have new: "uint64s h' (free h) = (replicate (?n + 1) 0)[?i := 1]"
    and old: "\<And>x. x \<noteq> free h \<Longrightarrow> uint64s h' x = uint64s h x"
    by (simp_all add: h')
  have val: "\<And>x. values_hv s' x = (if x = a then Some ?b else values_hv s x)"
    by (simp add: s')
  show ?thesis
  proof (rule invariantI)
    show "bounds s' < free h'" using invariant_bounds [OF inv] by (simp add: fl)
    show "sorted_Float64s (float64s h' (bounds s'))" using invariant_sorted [OF inv] by (simp add: fl)
  next
    fix x b assume "values_hv s' x = Some b"
    then show "counts b < free h'"
      using invariant_counts [OF inv, of x b] by (auto simp: val fl split: if_splits)
  next
    fix x b assume xb: "values_hv s' x = Some b"
    show "length (uint64s h' (counts b)) = length (float64s h' (bounds s')) + 1"
    proof (cases "x = a")
      case True
      with xb have "b = ?b" by (simp add: val)
      then show ?thesis by (simp add: new fl del: replicate.simps replicate_Suc)
    next
      case False
      with xb have vb: "values_hv s x = Some b" by (simp add: val)
      with invariant_counts [OF inv vb] invariant_length [OF inv vb] show ?thesis
        by (simp add: old fl)
    qed
  next
    fix x b assume xb: "values_hv s' x = Some b"
    show "count b = sum_list (uint64s h' (counts b))"
    proof (cases "x = a")
      case True
      with xb have "b = ?b" by (simp add: val)
      with sum_list_fresh [OF idx] show ?thesis by (simp add: new)
    next
      case False
      with xb have vb: "values_hv s x = Some b" by (simp add: val)
      with invariant_counts [OF inv vb] invariant_count [OF inv vb] show ?thesis
        by (simp add: old)
    qed
  next
    fix x y b c assume h: "values_hv s' x = Some b" "values_hv s' y = Some c" "counts b = counts c"
    show "x = y"
    proof (cases "x = a"; cases "y = a")
      assume "x \<noteq> a" "y \<noteq> a"
      with h invariant_inj [OF inv, of x b y c] show ?thesis by (simp add: val)
    next
      assume "x = a" "y \<noteq> a"
      with h invariant_counts [OF inv, of y c] show ?thesis by (auto simp: val)
    next
      assume "x \<noteq> a" "y = a"
      with h invariant_counts [OF inv, of x b] show ?thesis by (auto simp: val)
    qed simp
  qed
next
  case (Some b0)
  let ?i = "SearchFloat64s (float64s h (bounds s)) (num_float64 N v)"
  let ?cs = "uint64s h (counts b0)"
  have idx: "?i < length ?cs"
    using invariant_sorted [OF inv] invariant_length [OF inv Some]
      SearchFloat64s_le [of "float64s h (bounds s)" "num_float64 N v"]
    by simp
  from agg Aggregate_Some [OF inv Some, of N v]
  have s': "s' = s\<lparr>values_hv := (values_hv s)(a \<mapsto> bumped N v b0)\<rparr>"
    and h': "h' = h\<lparr>uint64s := (uint64s h)(counts b0 := ?cs[?i := ?cs ! ?i + 1])\<rparr>"
    by simp_all
  have fl: "float64s h' = float64s h" "free h' = free h" "bounds s' = bounds s"
    by (simp_all add: s' h')
  have new: "uint64s h' (counts b0) = ?cs[?i := ?cs ! ?i + 1]"
    and old: "\<And>x. x \<noteq> counts b0 \<Longrightarrow> uint64s h' x = uint64s h x"
    by (simp_all add: h')
  have val: "\<And>x. values_hv s' x = (if x = a then Some (bumped N v b0) else values_hv s x)"
    by (simp add: s')
  show ?thesis
  proof (rule invariantI)
    show "bounds s' < free h'" using invariant_bounds [OF inv] by (simp add: fl)
    show "sorted_Float64s (float64s h' (bounds s'))" using invariant_sorted [OF inv] by (simp add: fl)
  next
    fix x b assume "values_hv s' x = Some b"
    then show "counts b < free h'"
      using invariant_counts [OF inv, of x b] invariant_counts [OF inv Some]
      by (auto simp: val fl split: if_splits)
  next
    fix x b assume xb: "values_hv s' x = Some b"
    show "length (uint64s h' (counts b)) = length (float64s h' (bounds s')) + 1"
    proof (cases "x = a")
      case True
      with xb invariant_length [OF inv Some] show ?thesis by (auto simp: val new fl)
    next
      case False
      with xb have vb: "values_hv s x = Some b" by (simp add: val)
      with invariant_inj [OF inv vb Some] False have "counts b \<noteq> counts b0" by blast
      with invariant_length [OF inv vb] show ?thesis by (simp add: old fl)
    qed
  next
    fix x b assume xb: "values_hv s' x = Some b"
    show "count b = sum_list (uint64s h' (counts b))"
    proof (cases "x = a")
      case True
      with xb sum_list_bump [OF idx] invariant_count [OF inv Some] show ?thesis
        by (auto simp: val new)
    next
      case False
      with xb have vb: "values_hv s x = Some b" by (simp add: val)
      with invariant_inj [OF inv vb Some] False have "counts b \<noteq> counts b0" by blast
      with invariant_count [OF inv vb] show ?thesis by (simp add: old)
    qed
  next
    fix x y b c assume h: "values_hv s' x = Some b" "values_hv s' y = Some c" "counts b = counts c"
    show "x = y"
    proof (cases "x = a"; cases "y = a")
      assume "x \<noteq> a" "y \<noteq> a"
      with h invariant_inj [OF inv, of x b y c] show ?thesis by (simp add: val)
    next
      assume "x = a" "y \<noteq> a"
      with h invariant_inj [OF inv Some, of y c] show ?thesis by (auto simp: val)
    next
      assume "x \<noteq> a" "y = a"
      with h invariant_inj [OF inv Some, of x b] show ?thesis by (auto simp: val)
    qed simp
  qed
qed

lemma Aggregate_total:
  "invariant s h \<Longrightarrow> \<exists>s' h'. Aggregate N v a s h = Inr (s', h')"
  by (cases "values_hv s a") (simp_all add: Aggregate_None Aggregate_Some)

section \<open>The range loops and the snapshots\<close>

lemma data_point_values_hv_update [simp]:
  "data_point (s\<lparr>values_hv := m\<rparr>) t bnds cnts a b = data_point s t bnds cnts a b"
  by (simp add: data_point_def)

lemma map_filter_Cons_Some [simp]: "f x = Some y \<Longrightarrow> List.map_filter f (x # xs) = y # List.map_filter f xs"
  by (simp add: List.map_filter_def)

lemma map_filter_Cons_None [simp]: "f x = None \<Longrightarrow> List.map_filter f (x # xs) = List.map_filter f xs"
  by (simp add: List.map_filter_def)

lemma map_filter_Nil [simp]: "List.map_filter f [] = []"
  by (simp add: List.map_filter_def)

lemma map_filter_cong_set:
  "(\<And>x. x \<in> set xs \<Longrightarrow> f x = g x) \<Longrightarrow> List.map_filter f xs = List.map_filter g xs"
  by (induction xs) (auto simp: List.map_filter_def)

lemma deltaHistogram_range_state:
  "fst (deltaHistogram_range t bnds ks s dps) = s\<lparr>values_hv := values_hv s |` (- set ks)\<rparr>"
proof (induction ks arbitrary: s dps)
  case Nil
  then show ?case by simp
next
  case (Cons a ks)
  show ?case
  proof (cases "values_hv s a")
    case None
    have "fst (deltaHistogram_range t bnds (a # ks) s dps) = fst (deltaHistogram_range t bnds ks s dps)"
      using None by simp
    also have "\<dots> = s\<lparr>values_hv := values_hv s |` (- set ks)\<rparr>" by (rule Cons.IH)
    also have "values_hv s |` (- set ks) = values_hv s |` (- set (a # ks))"
      using None by (auto simp: restrict_map_def fun_eq_iff)
    finally show ?thesis .
  next
    case (Some b)
    let ?s1 = "s\<lparr>values_hv := (values_hv s)(a := None)\<rparr>"
    have "fst (deltaHistogram_range t bnds (a # ks) s dps) =
          fst (deltaHistogram_range t bnds ks ?s1 (dps @ [data_point s t bnds (counts b) a b]))"
      using Some by simp
    also have "\<dots> = ?s1\<lparr>values_hv := values_hv ?s1 |` (- set ks)\<rparr>" by (rule Cons.IH)
    also have "\<dots> = s\<lparr>values_hv := values_hv s |` (- set (a # ks))\<rparr>"
    proof -
      have "values_hv ?s1 |` (- set ks) = values_hv s |` (- set (a # ks))"
        by (auto simp: restrict_map_def fun_eq_iff)
      then show ?thesis by simp
    qed
    finally show ?thesis .
  qed
qed

lemma deltaHistogram_range_points:
  "distinct ks \<Longrightarrow>
   snd (deltaHistogram_range t bnds ks s dps) =
     dps @ List.map_filter
             (\<lambda>a. map_option (\<lambda>b. data_point s t bnds (counts b) a b) (values_hv s a)) ks"
proof (induction ks arbitrary: s dps)
  case Nil
  then show ?case by simp
next
  case (Cons a ks)
  show ?case
  proof (cases "values_hv s a")
    case None
    with Cons show ?thesis by simp
  next
    case (Some b)
    let ?s1 = "s\<lparr>values_hv := (values_hv s)(a := None)\<rparr>"
    have "List.map_filter
            (\<lambda>x. map_option (\<lambda>b. data_point ?s1 t bnds (counts b) x b) (values_hv ?s1 x)) ks
          = List.map_filter
            (\<lambda>x. map_option (\<lambda>b. data_point s t bnds (counts b) x b) (values_hv s x)) ks"
      using Cons.prems by (intro map_filter_cong_set) auto
    with Some Cons show ?thesis by simp
  qed
qed

lemma cumulativeHistogram_range_props:
  assumes "\<forall>a b. values_hv s a = Some b \<longrightarrow> counts b < free h"
  shows "\<exists>h' new. cumulativeHistogram_range t bnds ks s h dps = (h', dps @ new)
     \<and> free h \<le> free h' \<and> float64s h' = float64s h
     \<and> (\<forall>x<free h. uint64s h' x = uint64s h x)
     \<and> map Attributes new = filter (\<lambda>a. values_hv s a \<noteq> None) ks
     \<and> (\<forall>dp\<in>set new. free h \<le> BucketCounts dp \<and> BucketCounts dp < free h'
           \<and> (\<exists>b. values_hv s (Attributes dp) = Some b
                 \<and> dp = data_point s t bnds (BucketCounts dp) (Attributes dp) b
                 \<and> uint64s h' (BucketCounts dp) = uint64s h (counts b)))"
  using assms
proof (induction ks arbitrary: h dps)
  case Nil
  then show ?case by simp
next
  case (Cons a ks)
  show ?case
  proof (cases "values_hv s a")
    case None
    from Cons.IH [where h = h and dps = dps, OF Cons.prems] None show ?thesis by auto
  next
    case (Some b)
    let ?h2 = "h\<lparr>free := Suc (free h), uint64s := (uint64s h)(free h := uint64s h (counts b))\<rparr>"
    let ?dp = "data_point s t bnds (free h) a b"
    have cb: "counts b < free h" using Cons.prems Some by blast
    have step: "cumulativeHistogram_range t bnds (a # ks) s h dps =
                cumulativeHistogram_range t bnds ks s ?h2 (dps @ [?dp])"
      using Some cb by (simp add: make_uint64s_def copy_uint64s_def)
    have pre: "\<forall>a b. values_hv s a = Some b \<longrightarrow> counts b < free ?h2"
      using Cons.prems by (simp add: less_Suc_eq)
    from Cons.IH [where h = ?h2 and dps = "dps @ [?dp]", OF pre] obtain h' new where
      r: "cumulativeHistogram_range t bnds ks s ?h2 (dps @ [?dp]) = (h', (dps @ [?dp]) @ new)"
      and f: "free ?h2 \<le> free h'" and fl: "float64s h' = float64s ?h2"
      and u: "\<forall>x<free ?h2. uint64s h' x = uint64s ?h2 x"
      and at: "map Attributes new = filter (\<lambda>a. values_hv s a \<noteq> None) ks"
      and el: "\<forall>dp\<in>set new. free ?h2 \<le> BucketCounts dp \<and> BucketCounts dp < free h'
           \<and> (\<exists>b. values_hv s (Attributes dp) = Some b
                 \<and> dp = data_point s t bnds (BucketCounts dp) (Attributes dp) b
                 \<and> uint64s h' (BucketCounts dp) = uint64s ?h2 (counts b))"
      by (elim exE conjE) (rule that, assumption+)
    have old: "\<And>x. x < free h \<Longrightarrow> uint64s h' x = uint64s h x"
      using u by simp
    have dp_attr: "Attributes ?dp = a" "BucketCounts ?dp = free h"
      by (simp_all add: data_point_def)
    have "cumulativeHistogram_range t bnds (a # ks) s h dps = (h', dps @ (?dp # new))"
      using step r by simp
    moreover have "free h \<le> free h'" using f by simp
    moreover have "float64s h' = float64s h" using fl by simp
    moreover have "\<forall>x<free h. uint64s h' x = uint64s h x" using old by blast
    moreover have "map Attributes (?dp # new) = filter (\<lambda>a. values_hv s a \<noteq> None) (a # ks)"
      using at Some dp_attr by simp
    moreover have "\<forall>dp\<in>set (?dp # new). free h \<le> BucketCounts dp \<and> BucketCounts dp < free h'
           \<and> (\<exists>b. values_hv s (Attributes dp) = Some b
                 \<and> dp = data_point s t bnds (BucketCounts dp) (Attributes dp) b
                 \<and> uint64s h' (BucketCounts dp) = uint64s h (counts b))"
    proof
      fix dp assume "dp \<in> set (?dp # new)"
      then consider "dp = ?dp" | "dp \<in> set new" by auto
      then show "free h \<le> BucketCounts dp \<and> BucketCounts dp < free h'
           \<and> (\<exists>b. values_hv s (Attributes dp) = Some b
                 \<and> dp = data_point s t bnds (BucketCounts dp) (Attributes dp) b
                 \<and> uint64s h' (BucketCounts dp) = uint64s h (counts b))"
      proof cases
        case 1
        have "uint64s h' (free h) = uint64s h (counts b)" using u by simp
        with 1 Some f dp_attr show ?thesis by auto
      next
        case 2
        with el obtain b' where
          b': "free ?h2 \<le> BucketCounts dp" "BucketCounts dp < free h'"
          "values_hv s (Attributes dp) = Some b'"
          "dp = data_point s t bnds (BucketCounts dp) (Attributes dp) b'"
          "uint64s h' (BucketCounts dp) = uint64s ?h2 (counts b')"
          by blast
        have "counts b' < free h" using Cons.prems b'(3) by blast
        then have "uint64s ?h2 (counts b') = uint64s h (counts b')" by simp
        with b' show ?thesis by auto
      qed
    qed
    ultimately show ?thesis by blast
  qed
qed

lemma deltaHistogram_Aggregation_empty:
  "values_hv s = Map.empty \<Longrightarrow> deltaHistogram_Aggregation t ks s h = (None, s, h)"
  by (simp add: deltaHistogram_Aggregation_def)

lemma cumulativeHistogram_Aggregation_empty:
  "values_hv s = Map.empty \<Longrightarrow> cumulativeHistogram_Aggregation t ks s h = (None, s, h)"
  by (simp add: cumulativeHistogram_Aggregation_def)

lemma deltaHistogram_Aggregation_nonempty:
  assumes "values_hv s \<noteq> Map.empty" "bounds s < free h"
  shows "deltaHistogram_Aggregation t ks s h =
     (Some \<lparr>DataPoints = snd (deltaHistogram_range t (free h) ks s []),
            Temporality = DeltaTemporality\<rparr>,
      s\<lparr>values_hv := values_hv s |` (- set ks), start := t\<rparr>,
      h\<lparr>free := Suc (free h),
        float64s := (float64s h)(free h := float64s h (bounds s))\<rparr>)"
proof -
  obtain s' dps where r: "deltaHistogram_range t (free h) ks s [] = (s', dps)"
    by (cases "deltaHistogram_range t (free h) ks s []")
  from deltaHistogram_range_state [of t "free h" ks s "[]"] r
  have s': "s' = s\<lparr>values_hv := values_hv s |` (- set ks)\<rparr>" by simp
  show ?thesis
    using assms r
    by (simp add: deltaHistogram_Aggregation_def make_float64s_def copy_float64s_def s')
qed

lemma cumulativeHistogram_Aggregation_nonempty:
  assumes "values_hv s \<noteq> Map.empty" "bounds s < free h"
  shows "cumulativeHistogram_Aggregation t ks s h =
     (Some \<lparr>DataPoints =
              snd (cumulativeHistogram_range t (free h) ks s
                   (h\<lparr>free := Suc (free h),
                      float64s := (float64s h)(free h := float64s h (bounds s))\<rparr>) []),
            Temporality = CumulativeTemporality\<rparr>,
      s,
      fst (cumulativeHistogram_range t (free h) ks s
             (h\<lparr>free := Suc (free h),
                float64s := (float64s h)(free h := float64s h (bounds s))\<rparr>) []))"
  using assms
  by (simp add: cumulativeHistogram_Aggregation_def make_float64s_def copy_float64s_def
      split: prod.split)

lemma Aggregation_state:
  "bounds s < free h \<Longrightarrow> Aggregation tmp t ks s h = (out, s', h') \<Longrightarrow>
     bounds s' = bounds s \<and> noMinMax s' = noMinMax s
     \<and> (\<forall>a. values_hv s' a = None \<or> values_hv s' a = values_hv s a)
     \<and> (tmp = CumulativeTemporality \<longrightarrow> s' = s)"
  by (cases tmp; cases "values_hv s = Map.empty")
    (auto simp: Aggregation_def deltaHistogram_Aggregation_empty
      cumulativeHistogram_Aggregation_empty deltaHistogram_Aggregation_nonempty
      cumulativeHistogram_Aggregation_nonempty restrict_map_def)

lemma Aggregation_heap:
  assumes "invariant s h" "Aggregation tmp t ks s h = (out, s', h')"
  shows "free h \<le> free h' \<and> (\<forall>x<free h. uint64s h' x = uint64s h x \<and> float64s h' x = float64s h x)"
proof (cases "values_hv s = Map.empty")
  case True
  with assms(2) show ?thesis
    by (cases tmp)
      (simp_all add: Aggregation_def deltaHistogram_Aggregation_empty
        cumulativeHistogram_Aggregation_empty)
next
  case False
  show ?thesis
  proof (cases tmp)
    case DeltaTemporality
    with assms(2) False invariant_bounds [OF assms(1)] show ?thesis
      by (auto simp: Aggregation_def deltaHistogram_Aggregation_nonempty)
  next
    case CumulativeTemporality
    let ?h1 = "h\<lparr>free := Suc (free h),
                float64s := (float64s h)(free h := float64s h (bounds s))\<rparr>"
    have pre: "\<forall>a b. values_hv s a = Some b \<longrightarrow> counts b < free ?h1"
      using invariant_counts [OF assms(1)] by (auto simp: less_Suc_eq)
    from cumulativeHistogram_range_props [OF pre, of t "free h" ks "[]"]
    obtain h2 new where
      r: "cumulativeHistogram_range t (free h) ks s ?h1 [] = (h2, [] @ new)"
      and f: "free ?h1 \<le> free h2" and fl: "float64s h2 = float64s ?h1"
      and u: "\<forall>x<free ?h1. uint64s h2 x = uint64s ?h1 x"
      by (elim exE conjE) (rule that, assumption+)
    from assms(2) CumulativeTemporality False r invariant_bounds [OF assms(1)] have "h' = h2"
      by (simp add: Aggregation_def cumulativeHistogram_Aggregation_nonempty)
    with f fl u show ?thesis by auto
  qed
qed

lemma invariant_Aggregation:
  assumes inv: "invariant s h" and agg: "Aggregation tmp t ks s h = (out, s', h')"
  shows "invariant s' h'"
proof -
  from Aggregation_state [OF invariant_bounds [OF inv] agg] have
    b: "bounds s' = bounds s" and v: "\<forall>a. values_hv s' a = None \<or> values_hv s' a = values_hv s a"
    by simp_all
  from Aggregation_heap [OF inv agg] have
    f: "free h \<le> free h'" and u: "\<And>x. x < free h \<Longrightarrow> uint64s h' x = uint64s h x"
    and fl: "\<And>x. x < free h \<Longrightarrow> float64s h' x = float64s h x"
    by simp_all
  have sub: "\<And>a b. values_hv s' a = Some b \<Longrightarrow> values_hv s a = Some b"
    using v by (metis option.distinct(1))
  show ?thesis
  proof (rule invariantI)
    show "bounds s' < free h'" using invariant_bounds [OF inv] f by (simp add: b)
    show "sorted_Float64s (float64s h' (bounds s'))"
      using invariant_sorted [OF inv] invariant_bounds [OF inv] by (simp add: b fl)
  next
    fix a c assume "values_hv s' a = Some c"
    then show "counts c < free h'" using invariant_counts [OF inv sub] f by force
  next
    fix a c assume ac: "values_hv s' a = Some c"
    from invariant_counts [OF inv sub [OF ac]] invariant_length [OF inv sub [OF ac]]
      invariant_bounds [OF inv]
    show "length (uint64s h' (counts c)) = length (float64s h' (bounds s')) + 1"
      by (simp add: b fl u)
  next
    fix a c assume ac: "values_hv s' a = Some c"
    from invariant_counts [OF inv sub [OF ac]] invariant_count [OF inv sub [OF ac]]
    show "count c = sum_list (uint64s h' (counts c))" by (simp add: u)
  next
    fix a a' c c' assume "values_hv s' a = Some c" "values_hv s' a' = Some c'" "counts c = counts c'"
    then show "a = a'" using invariant_inj [OF inv] sub by blast
  qed
qed

lemma Aggregate_state:
  assumes "invariant s h" "Aggregate N v a s h = Inr (s', h')"
  shows "bounds s' = bounds s \<and> histogram.noMinMax s' = histogram.noMinMax s
     \<and> histogram.start s' = histogram.start s
     \<and> float64s h' = float64s h \<and> free h \<le> free h'
     \<and> (\<forall>x. x \<noteq> a \<longrightarrow> values_hv s' x = values_hv s x) \<and> values_hv s' a \<noteq> None"
  using assms Aggregate_None [OF assms(1), of a N v] Aggregate_Some [OF assms(1), of a _ N v]
  by (cases "values_hv s a") auto

lemma run_invariant:
  "invariant s h \<Longrightarrow>
     \<exists>outs s' h'. run N tmp cs s h = Inr (outs, s', h') \<and> invariant s' h'
       \<and> bounds s' = bounds s \<and> noMinMax s' = noMinMax s
       \<and> float64s h' (bounds s) = float64s h (bounds s)"
proof (induction cs arbitrary: s h)
  case Nil
  then show ?case by simp
next
  case (Cons c cs)
  show ?case
  proof (cases c)
    case (Aggregate_call v a)
    from Aggregate_total [OF Cons.prems, of N v a] obtain s1 h1 where
      a1: "Aggregate N v a s h = Inr (s1, h1)" by blast
    from invariant_Aggregate [OF Cons.prems a1] have i1: "invariant s1 h1" .
    from Aggregate_state [OF Cons.prems a1] Cons.IH [OF i1] a1 Aggregate_call
    show ?thesis by auto
  next
    case (Aggregation_call t ks)
    obtain out s1 h1 where a1: "Aggregation tmp t ks s h = (out, s1, h1)"
      by (cases "Aggregation tmp t ks s h") auto
    from invariant_Aggregation [OF Cons.prems a1] have i1: "invariant s1 h1" .
    from Aggregation_state [OF invariant_bounds [OF Cons.prems] a1] Aggregation_heap [OF Cons.prems a1]
      invariant_bounds [OF Cons.prems] Cons.IH [OF i1] a1 Aggregation_call
    show ?thesis by auto
  qed
qed

section \<open>Snapshots without data, bucket assignment, counts\<close>

lemma not_ge_iff_lt: "b \<noteq> NaN \<Longrightarrow> x \<noteq> NaN \<Longrightarrow> (\<not> float64_ge b x) = float64_lt b x"
  by (cases b; cases x; auto simp: float64_ge_def float64_eq_def)

lemma run_from_new:
  assumes "newHistogram cfg t0 h0 = (s0, h1)"
  shows "\<exists>outs s h. run N tmp cs s0 h1 = Inr (outs, s, h) \<and> invariant s h
           \<and> float64s h (bounds s) = Float64s (Boundaries cfg) \<and> noMinMax s = NoMinMax cfg"
proof -
  from assms have i0: "invariant s0 h1" by (rule invariant_newHistogram)
  from assms have "float64s h1 (bounds s0) = Float64s (Boundaries cfg)" "noMinMax s0 = NoMinMax cfg"
    by (auto simp: newHistogram_eq)
  with run_invariant [OF i0, of N tmp cs] show ?thesis by auto
qed

text \<open>
  C2, as stated, fails: a snapshot of a histogram that holds no data returns \<open>nil\<close>, not
  a histogram with an empty list of data points. Here the histogram is new.
\<close>

theorem Aggregation_without_data_counterexample:
  "fst (deltaHistogram_Aggregation 1 []
         (fst (newDeltaHistogram \<lparr>Boundaries = [Finite 0, Finite 5, Finite 10], NoMinMax = False\<rparr>
                0 empty_heap) :: (nat, int64) deltaHistogram)
         (snd (newDeltaHistogram \<lparr>Boundaries = [Finite 0, Finite 5, Finite 10], NoMinMax = False\<rparr>
                0 empty_heap :: (nat, int64) deltaHistogram \<times> heap)))
     = None
   \<and> fst (cumulativeHistogram_Aggregation 1 []
         (fst (newCumulativeHistogram \<lparr>Boundaries = [Finite 0, Finite 5, Finite 10], NoMinMax = False\<rparr>
                0 empty_heap) :: (nat, int64) cumulativeHistogram)
         (snd (newCumulativeHistogram \<lparr>Boundaries = [Finite 0, Finite 5, Finite 10], NoMinMax = False\<rparr>
                0 empty_heap :: (nat, int64) cumulativeHistogram \<times> heap)))
     = None
   \<and> (None :: (nat, int64) Aggregation) \<noteq> Some \<lparr>DataPoints = [], Temporality = DeltaTemporality\<rparr>
   \<and> (None :: (nat, int64) Aggregation) \<noteq> Some \<lparr>DataPoints = [], Temporality = CumulativeTemporality\<rparr>"
  by (simp add: newDeltaHistogram_def newCumulativeHistogram_def newHistogram_eq
      deltaHistogram_Aggregation_empty cumulativeHistogram_Aggregation_empty)

text \<open>
  C2, amended: a snapshot of a delta or cumulative histogram whose map holds no entry
  returns \<open>nil\<close> (no histogram, so no data points) and changes neither the aggregator nor
  the store; the functions have no error result.
\<close>

theorem Aggregation_without_data_is_nil:
  "values_hv s = Map.empty \<Longrightarrow>
     deltaHistogram_Aggregation t ks s h = (None, s, h)
     \<and> cumulativeHistogram_Aggregation t ks s h = (None, s, h)"
  by (simp add: deltaHistogram_Aggregation_empty cumulativeHistogram_Aggregation_empty)

theorem Aggregation_without_data_is_nil_witness:
  "values_hv (\<lparr>bounds = 0, values_hv = Map.empty, noMinMax = False, start = 0\<rparr>
       :: (nat, int64) histogram) = Map.empty
   \<and> deltaHistogram_Aggregation 1 []
       (\<lparr>bounds = 0, values_hv = Map.empty, noMinMax = False, start = 0\<rparr> :: (nat, int64) histogram)
       (empty_heap\<lparr>float64s := (\<lambda>x. [])(0 := [Finite 0, Finite 5, Finite 10]), free := 1\<rparr>)
     = (None, \<lparr>bounds = 0, values_hv = Map.empty, noMinMax = False, start = 0\<rparr>,
        empty_heap\<lparr>float64s := (\<lambda>x. [])(0 := [Finite 0, Finite 5, Finite 10]), free := 1\<rparr>)
   \<and> cumulativeHistogram_Aggregation 1 []
       (\<lparr>bounds = 0, values_hv = Map.empty, noMinMax = False, start = 0\<rparr> :: (nat, int64) histogram)
       (empty_heap\<lparr>float64s := (\<lambda>x. [])(0 := [Finite 0, Finite 5, Finite 10]), free := 1\<rparr>)
     = (None, \<lparr>bounds = 0, values_hv = Map.empty, noMinMax = False, start = 0\<rparr>,
        empty_heap\<lparr>float64s := (\<lambda>x. [])(0 := [Finite 0, Finite 5, Finite 10]), free := 1\<rparr>)"
  using Aggregation_without_data_is_nil
    [of "\<lparr>bounds = 0, values_hv = Map.empty, noMinMax = False, start = 0\<rparr> :: (nat, int64) histogram"
        1 "[]" "empty_heap\<lparr>float64s := (\<lambda>x. [])(0 := [Finite 0, Finite 5, Finite 10]), free := 1\<rparr>"]
  by simp

lemma bins_Aggregate:
  assumes inv: "invariant s h" and agg: "Aggregate N v a s h = Inr (s', h')"
  shows "bins s' h' a =
           (bins s h a)[SearchFloat64s (float64s h (bounds s)) (num_float64 N v) :=
              bins s h a ! SearchFloat64s (float64s h (bounds s)) (num_float64 N v) + 1]
         \<and> (\<forall>x. x \<noteq> a \<longrightarrow> bins s' h' x = bins s h x)
         \<and> length (bins s h a) = length (float64s h (bounds s)) + 1"
proof (cases "values_hv s a")
  case None
  have idx: "SearchFloat64s (float64s h (bounds s)) (num_float64 N v) < length (float64s h (bounds s)) + 1"
    using invariant_sorted [OF inv] SearchFloat64s_le [of "float64s h (bounds s)" "num_float64 N v"]
    by simp
  have oth: "bins s' h' x = bins s h x" if "x \<noteq> a" for x
  proof (cases "values_hv s x")
    case None
    with that agg Aggregate_None [OF inv \<open>values_hv s a = None\<close>, of N v] show ?thesis
      by (auto simp: bins_def)
  next
    case (Some c)
    with invariant_counts [OF inv Some] that agg
      Aggregate_None [OF inv \<open>values_hv s a = None\<close>, of N v]
    show ?thesis by (auto simp: bins_def)
  qed
  from agg Aggregate_None [OF inv None, of N v] idx have
    "bins s' h' a =
           (bins s h a)[SearchFloat64s (float64s h (bounds s)) (num_float64 N v) :=
              bins s h a ! SearchFloat64s (float64s h (bounds s)) (num_float64 N v) + 1]"
    using None by (auto simp: bins_def simp del: replicate.simps replicate_Suc)
  moreover have "length (bins s h a) = length (float64s h (bounds s)) + 1"
    using None by (simp add: bins_def)
  ultimately show ?thesis using oth by blast
next
  case (Some b)
  have oth: "bins s' h' x = bins s h x" if "x \<noteq> a" for x
  proof (cases "values_hv s x")
    case None
    with that agg Aggregate_Some [OF inv Some, of N v] show ?thesis
      by (auto simp: bins_def)
  next
    case (Some c)
    with invariant_inj [OF inv Some \<open>values_hv s a = Some b\<close>] that have "counts c \<noteq> counts b"
      by blast
    with Some that agg Aggregate_Some [OF inv \<open>values_hv s a = Some b\<close>, of N v]
    show ?thesis by (auto simp: bins_def)
  qed
  from agg Aggregate_Some [OF inv Some, of N v] have
    "bins s' h' a =
           (bins s h a)[SearchFloat64s (float64s h (bounds s)) (num_float64 N v) :=
              bins s h a ! SearchFloat64s (float64s h (bounds s)) (num_float64 N v) + 1]"
    using Some by (auto simp: bins_def)
  moreover have "length (bins s h a) = length (float64s h (bounds s)) + 1"
    using Some invariant_length [OF inv Some] by (simp add: bins_def)
  ultimately show ?thesis using oth by blast
qed

text \<open>
  C1, as stated, fails on a value that is not a number: with the boundaries \<open>[0, 5, 10]\<close>
  no boundary is strictly less than \<open>NaN\<close>, so the claim asks for bucket \<open>0\<close>, and
  \<open>Aggregate\<close> counts \<open>NaN\<close> in the last bucket, \<open>3\<close>.
\<close>

theorem Aggregate_NaN_counterexample:
  "newHistogram \<lparr>Boundaries = [Finite 0, Finite 5, Finite 10], NoMinMax = False\<rparr> 0 empty_heap
     = (\<lparr>bounds = 0, values_hv = Map.empty, noMinMax = False, start = 0\<rparr> :: (nat, float64) histogram,
        \<lparr>uint64s = (\<lambda>x. []), float64s = (\<lambda>x. [])(0 := [Finite 0, Finite 5, Finite 10]), free = 1\<rparr>)
   \<and> length (filter (\<lambda>b. float64_lt b NaN) [Finite 0, Finite 5, Finite 10]) = 0
   \<and> (case Aggregate float64_number NaN (0 :: nat)
              (\<lparr>bounds = 0, values_hv = Map.empty, noMinMax = False, start = 0\<rparr> :: (nat, float64) histogram)
              \<lparr>uint64s = (\<lambda>x. []), float64s = (\<lambda>x. [])(0 := [Finite 0, Finite 5, Finite 10]), free = 1\<rparr>
       of Inl e \<Rightarrow> [] | Inr (s', h') \<Rightarrow> bins s' h' 0)
     = [0, 0, 0, 1]"
  by (simp add: newHistogram_eq empty_heap_def Aggregate_def bin_def newBuckets_def
      make_uint64s_def bins_def SearchFloat64s_def Search_def Search_loop_unfold float64_ge_def
      float64_eq_def Float64Slice_Less_def float64_number_def Let_def)

text \<open>
  C1, amended: on a histogram made with the boundaries of \<open>cfg\<close>, after any calls,
  \<open>Aggregate\<close> does not panic and adds one to exactly one bucket count of the attribute
  set, the one whose index is the number of boundaries \<open>b\<close> for which \<open>b >= float64(v)\<close>
  is false; it leaves the counts of the other attribute sets as they are. When neither
  \<open>float64(v)\<close> nor a boundary is \<open>NaN\<close> that index is the number of boundaries strictly
  less than \<open>float64(v)\<close>, so a value equal to a boundary falls in the lower bucket.
\<close>

theorem Aggregate_bucket_index:
  assumes "newHistogram cfg t0 h0 = (s0, h1)" and "run N tmp cs s0 h1 = Inr (outs, s, h)"
  shows "case Aggregate N v a s h of
           Inl e \<Rightarrow> False
         | Inr (s', h') \<Rightarrow>
             (let i = length (filter (\<lambda>b. \<not> float64_ge b (num_float64 N v)) (Boundaries cfg))
              in i < length (bins s h a)
                 \<and> length (bins s h a) = length (Boundaries cfg) + 1
                 \<and> bins s' h' a = (bins s h a)[i := bins s h a ! i + 1]
                 \<and> (\<forall>x. x \<noteq> a \<longrightarrow> bins s' h' x = bins s h x)
                 \<and> (num_float64 N v \<noteq> NaN \<and> NaN \<notin> set (Boundaries cfg) \<longrightarrow>
                      i = length (filter (\<lambda>b. float64_lt b (num_float64 N v)) (Boundaries cfg))))"
proof -
  from run_from_new [OF assms(1), of N tmp cs] assms(2) have
    inv: "invariant s h" and bs: "float64s h (bounds s) = Float64s (Boundaries cfg)"
    by auto
  from Aggregate_total [OF inv, of N v a] obtain s' h' where
    agg: "Aggregate N v a s h = Inr (s', h')" by blast
  let ?i = "length (filter (\<lambda>b. \<not> float64_ge b (num_float64 N v)) (Boundaries cfg))"
  have idx: "SearchFloat64s (float64s h (bounds s)) (num_float64 N v) = ?i"
    using invariant_sorted [OF inv] by (simp add: SearchFloat64s_sorted bs filter_Float64s)
  have le: "?i \<le> length (Boundaries cfg)" by simp
  have nan: "?i = length (filter (\<lambda>b. float64_lt b (num_float64 N v)) (Boundaries cfg))"
    if "num_float64 N v \<noteq> NaN" "NaN \<notin> set (Boundaries cfg)"
  proof -
    have "filter (\<lambda>b. \<not> float64_ge b (num_float64 N v)) (Boundaries cfg)
          = filter (\<lambda>b. float64_lt b (num_float64 N v)) (Boundaries cfg)"
      using that by (intro filter_cong refl not_ge_iff_lt) auto
    then show ?thesis by simp
  qed
  from bins_Aggregate [OF inv agg] have
    b1: "bins s' h' a = (bins s h a)[?i := bins s h a ! ?i + 1]"
    and b2: "\<forall>x. x \<noteq> a \<longrightarrow> bins s' h' x = bins s h x"
    and b3: "length (bins s h a) = length (Boundaries cfg) + 1"
    by (simp_all add: idx [unfolded bs] bs)
  have b4: "?i < length (bins s h a)" unfolding b3 by (simp add: less_Suc_eq_le)
  show ?thesis
    unfolding agg Let_def using b1 b2 b3 b4 nan by simp
qed

theorem Aggregate_bucket_index_witness:
  "newHistogram \<lparr>Boundaries = [Finite 0, Finite 5, Finite 10], NoMinMax = False\<rparr> 0 empty_heap
     = (\<lparr>bounds = 0, values_hv = Map.empty, noMinMax = False, start = 0\<rparr> :: (nat, float64) histogram,
        \<lparr>uint64s = (\<lambda>x. []), float64s = (\<lambda>x. [])(0 := [Finite 0, Finite 5, Finite 10]), free = 1\<rparr>)
   \<and> map (\<lambda>v. case Aggregate float64_number v (0 :: nat)
              (\<lparr>bounds = 0, values_hv = Map.empty, noMinMax = False, start = 0\<rparr> :: (nat, float64) histogram)
              \<lparr>uint64s = (\<lambda>x. []), float64s = (\<lambda>x. [])(0 := [Finite 0, Finite 5, Finite 10]), free = 1\<rparr>
            of Inl e \<Rightarrow> [] | Inr (s', h') \<Rightarrow> bins s' h' 0)
       [Finite (- 1), Finite 0, Finite (1 / 10), Finite 5, Finite (51 / 10), Finite 10, Finite 11]
     = [[1, 0, 0, 0], [1, 0, 0, 0], [0, 1, 0, 0], [0, 1, 0, 0], [0, 0, 1, 0], [0, 0, 1, 0],
        [0, 0, 0, 1]]"
  using Aggregate_bucket_index
    [of "\<lparr>Boundaries = [Finite 0, Finite 5, Finite 10], NoMinMax = False\<rparr>" 0 empty_heap
        "\<lparr>bounds = 0, values_hv = Map.empty, noMinMax = False, start = 0\<rparr> :: (nat, float64) histogram"
        "\<lparr>uint64s = (\<lambda>x. []), float64s = (\<lambda>x. [])(0 := [Finite 0, Finite 5, Finite 10]), free = 1\<rparr>"
        float64_number DeltaTemporality "[]" "[]"
        "\<lparr>bounds = 0, values_hv = Map.empty, noMinMax = False, start = 0\<rparr>"
        "\<lparr>uint64s = (\<lambda>x. []), float64s = (\<lambda>x. [])(0 := [Finite 0, Finite 5, Finite 10]), free = 1\<rparr>"
        "Finite (51 / 10)" 0]
  by (simp add: newHistogram_eq empty_heap_def Aggregate_def bin_def newBuckets_def
      make_uint64s_def bins_def SearchFloat64s_def Search_def Search_loop_unfold float64_ge_def
      float64_eq_def Float64Slice_Less_def float64_number_def Let_def)

lemma unat_bump_le: "unat (x + 1 :: uint64) \<le> unat x + 1"
  by (simp add: unat_word_ariths)

lemma sum_unat_bump_le:
  "sum_list (map unat (xs[i := xs ! i + (1 :: uint64)])) \<le> sum_list (map unat xs) + 1"
proof (induction xs arbitrary: i)
  case Nil
  then show ?case by simp
next
  case (Cons x xs)
  show ?case
  proof (cases i)
    case 0
    with unat_bump_le [of x] show ?thesis by simp
  next
    case (Suc j)
    with Cons [of j] show ?thesis by simp
  qed
qed

lemma unat_sum_list:
  "sum_list (map unat xs) < 2 ^ 64 \<Longrightarrow> unat (sum_list xs :: uint64) = sum_list (map unat xs)"
proof (induction xs)
  case Nil
  then show ?case by simp
next
  case (Cons x xs)
  then have "sum_list (map unat xs) < 2 ^ 64" by simp
  with Cons have ih: "unat (sum_list xs) = sum_list (map unat xs)" by simp
  have "unat (x + sum_list xs) = (unat x + unat (sum_list xs)) mod 2 ^ 64"
    by (simp add: unat_word_ariths)
  with ih Cons.prems show ?case by simp
qed

lemma bins_Aggregation:
  assumes inv: "invariant s h" and agg: "Aggregation tmp t ks s h = (out, s', h')"
  shows "bins s' h' a = bins s h a
         \<or> bins s' h' a = replicate (length (float64s h (bounds s)) + 1) 0"
proof -
  from Aggregation_state [OF invariant_bounds [OF inv] agg] have
    b: "bounds s' = bounds s" and v: "values_hv s' a = None \<or> values_hv s' a = values_hv s a"
    by simp_all
  from Aggregation_heap [OF inv agg] invariant_bounds [OF inv] have
    fl: "float64s h' (bounds s) = float64s h (bounds s)"
    and u: "\<And>x. x < free h \<Longrightarrow> uint64s h' x = uint64s h x"
    by simp_all
  show ?thesis
  proof (cases "values_hv s' a")
    case None
    then show ?thesis by (simp add: bins_def b fl)
  next
    case (Some c)
    with v have "values_hv s a = Some c" by simp
    with Some u [OF invariant_counts [OF inv this]] show ?thesis by (simp add: bins_def)
  qed
qed

lemma run_tally:
  "invariant s h \<Longrightarrow> \<forall>a. sum_list (map unat (bins s h a)) \<le> n \<Longrightarrow>
     run N tmp cs s h = Inr (outs, s', h') \<Longrightarrow>
     \<forall>a. sum_list (map unat (bins s' h' a)) \<le> n + aggregates cs"
proof (induction cs arbitrary: s h outs n)
  case Nil
  then show ?case by simp
next
  case (Cons c cs)
  show ?case
  proof (cases c)
    case (Aggregate_call v x)
    from Aggregate_total [OF Cons.prems(1), of N v x] obtain s1 h1 where
      a1: "Aggregate N v x s h = Inr (s1, h1)" by blast
    from Cons.prems(3) a1 Aggregate_call have r: "run N tmp cs s1 h1 = Inr (outs, s', h')" by simp
    from bins_Aggregate [OF Cons.prems(1) a1] obtain i where
      bx: "bins s1 h1 x = (bins s h x)[i := bins s h x ! i + 1]"
      and bo: "\<forall>y. y \<noteq> x \<longrightarrow> bins s1 h1 y = bins s h y" by blast
    have k1: "\<forall>a. sum_list (map unat (bins s1 h1 a)) \<le> Suc n"
    proof
      fix a
      show "sum_list (map unat (bins s1 h1 a)) \<le> Suc n"
      proof (cases "a = x")
        case True
        with bx sum_unat_bump_le [of "bins s h x" i] Cons.prems(2) [rule_format, of x]
        show ?thesis by simp
      next
        case False
        with bo Cons.prems(2) [rule_format, of a] show ?thesis by simp
      qed
    qed
    from Cons.IH [OF invariant_Aggregate [OF Cons.prems(1) a1] k1 r] Aggregate_call
    show ?thesis by simp
  next
    case (Aggregation_call t ks)
    obtain out s1 h1 where a1: "Aggregation tmp t ks s h = (out, s1, h1)"
      by (cases "Aggregation tmp t ks s h") auto
    from Cons.prems(3) a1 Aggregation_call obtain outs1 where
      r: "run N tmp cs s1 h1 = Inr (outs1, s', h')"
      by (auto split: sum.splits)
    have k1: "\<forall>a. sum_list (map unat (bins s1 h1 a)) \<le> n"
    proof
      fix a
      from bins_Aggregation [OF Cons.prems(1) a1, of a] Cons.prems(2) [rule_format, of a]
      show "sum_list (map unat (bins s1 h1 a)) \<le> n"
        by (auto simp: sum_list_replicate simp del: replicate.simps replicate_Suc)
    qed
    from Cons.IH [OF invariant_Aggregation [OF Cons.prems(1) a1] k1 r] Aggregation_call
    show ?thesis by simp
  qed
qed

text \<open>
  C6: on a histogram made by the constructor, no sequence of calls (\<open>Aggregate\<close> with any
  values and attribute sets, and snapshots) panics, and after it the \<open>count\<close> of every
  \<open>buckets\<close> is the sum, in \<open>uint64\<close>, of its bucket counts, of which there is one more
  than there are boundaries; with fewer than \<open>2 ^ 64\<close> calls of \<open>Aggregate\<close> no counter
  has wrapped around and the sum is also the sum of the numbers. A sequence of calls of
  \<open>Aggregate\<close> with one attribute set is such a sequence, and so is each of its prefixes.
\<close>

theorem count_is_sum_of_bucket_counts:
  assumes "newHistogram cfg t0 h0 = (s0, h1)"
  shows "\<exists>outs s h. run N tmp cs s0 h1 = Inr (outs, s, h)
           \<and> (\<forall>a b. values_hv s a = Some b \<longrightarrow>
                 count b = sum_list (uint64s h (counts b))
                 \<and> length (uint64s h (counts b)) = length (Boundaries cfg) + 1
                 \<and> (aggregates cs < 2 ^ 64 \<longrightarrow>
                      unat (count b) = sum_list (map unat (uint64s h (counts b)))))"
proof -
  from run_from_new [OF assms, of N tmp cs] obtain outs s h where
    r: "run N tmp cs s0 h1 = Inr (outs, s, h)" and inv: "invariant s h"
    and bs: "float64s h (bounds s) = Float64s (Boundaries cfg)"
    by blast
  from assms have i0: "invariant s0 h1" by (rule invariant_newHistogram)
  from assms have "values_hv s0 = Map.empty" by (auto simp: newHistogram_eq)
  then have k0: "\<forall>a. sum_list (map unat (bins s0 h1 a)) \<le> 0"
    by (simp add: bins_def sum_list_replicate del: replicate.simps replicate_Suc)
  from run_tally [OF i0 k0 r] have k: "\<And>a. sum_list (map unat (bins s h a)) \<le> aggregates cs"
    by simp
  have "count b = sum_list (uint64s h (counts b))
        \<and> length (uint64s h (counts b)) = length (Boundaries cfg) + 1
        \<and> (aggregates cs < 2 ^ 64 \<longrightarrow>
             unat (count b) = sum_list (map unat (uint64s h (counts b))))"
    if v: "values_hv s a = Some b" for a b
  proof -
    from k [of a] v have le: "sum_list (map unat (uint64s h (counts b))) \<le> aggregates cs"
      by (simp add: bins_def)
    have "unat (count b) = sum_list (map unat (uint64s h (counts b)))" if "aggregates cs < 2 ^ 64"
      using invariant_count [OF inv v] unat_sum_list [of "uint64s h (counts b)"] le that
      by simp
    with invariant_count [OF inv v] invariant_length [OF inv v] show ?thesis by (simp add: bs)
  qed
  with r show ?thesis by blast
qed

theorem count_is_sum_of_bucket_counts_witness:
  "newHistogram \<lparr>Boundaries = [Finite 0, Finite 5, Finite 10], NoMinMax = False\<rparr> 0 empty_heap
     = (\<lparr>bounds = 0, values_hv = Map.empty, noMinMax = False, start = 0\<rparr> :: (nat, int64) histogram,
        \<lparr>uint64s = (\<lambda>x. []), float64s = (\<lambda>x. [])(0 := [Finite 0, Finite 5, Finite 10]), free = 1\<rparr>)
   \<and> aggregates [Aggregate_call (3 :: int64) (0 :: nat), Aggregate_call 7 0, Aggregate_call 12 0]
       < 2 ^ 64
   \<and> (case run int64_number CumulativeTemporality
              [Aggregate_call 3 (0 :: nat), Aggregate_call 7 0, Aggregate_call 12 0]
              (\<lparr>bounds = 0, values_hv = Map.empty, noMinMax = False, start = 0\<rparr> :: (nat, int64) histogram)
              \<lparr>uint64s = (\<lambda>x. []), float64s = (\<lambda>x. [])(0 := [Finite 0, Finite 5, Finite 10]), free = 1\<rparr>
       of Inl e \<Rightarrow> False
        | Inr (outs, s, h) \<Rightarrow>
            (case values_hv s 0 of
               None \<Rightarrow> False
             | Some b \<Rightarrow> count b = 3 \<and> uint64s h (counts b) = [0, 1, 1, 1]
                          \<and> count b = sum_list (uint64s h (counts b))
                          \<and> unat (count b) = sum_list (map unat (uint64s h (counts b)))))"
  using count_is_sum_of_bucket_counts
    [of "\<lparr>Boundaries = [Finite 0, Finite 5, Finite 10], NoMinMax = False\<rparr>" 0 empty_heap
        "\<lparr>bounds = 0, values_hv = Map.empty, noMinMax = False, start = 0\<rparr> :: (nat, int64) histogram"
        "\<lparr>uint64s = (\<lambda>x. []), float64s = (\<lambda>x. [])(0 := [Finite 0, Finite 5, Finite 10]), free = 1\<rparr>"
        int64_number CumulativeTemporality
        "[Aggregate_call 3 (0 :: nat), Aggregate_call 7 0, Aggregate_call 12 0]"]
  by (simp add: newHistogram_eq empty_heap_def Aggregate_def bin_def newBuckets_def
      make_uint64s_def SearchFloat64s_def Search_def Search_loop_unfold float64_ge_def
      float64_eq_def Float64Slice_Less_def int64_number_def float64_of_int64_def
      float64_of_int_def Let_def)

section \<open>Extrema\<close>

lemma ordered_int64: "ordered int64_number V"
proof -
  have "x = y \<or> sint x < sint y \<or> sint y < sint x" for x y :: int64
    by (cases "sint x = sint y") (auto simp: signed_word_eqI)
  then show ?thesis
    by (auto simp: ordered_def int64_number_def word_sless_alt)
qed

lemma float64_lt_irrefl: "\<not> float64_lt a a"
  by (cases a) simp_all

lemma float64_lt_trans: "float64_lt a b \<Longrightarrow> float64_lt b c \<Longrightarrow> float64_lt a c"
  by (cases a; cases b; cases c) simp_all

lemma float64_lt_total: "a \<noteq> NaN \<Longrightarrow> b \<noteq> NaN \<Longrightarrow> a = b \<or> float64_lt a b \<or> float64_lt b a"
  by (cases a; cases b) auto

lemma ordered_float64: "NaN \<notin> V \<Longrightarrow> ordered float64_number V"
  unfolding ordered_def float64_number_def
  using float64_lt_irrefl float64_lt_trans float64_lt_total by (simp, metis)

lemma extrema_bumped:
  assumes ord: "ordered N W" and sub: "V \<subseteq> W" and x: "x \<in> W" and ex: "extrema N V b"
  shows "extrema N (insert x V) (bumped N x b)"
proof -
  let ?lt = "num_lt N"
  have tr: "\<And>p q r. p \<in> W \<Longrightarrow> q \<in> W \<Longrightarrow> r \<in> W \<Longrightarrow> ?lt p q \<Longrightarrow> ?lt q r \<Longrightarrow> ?lt p r"
    using ord unfolding ordered_def by blast
  have tot: "\<And>p q. p \<in> W \<Longrightarrow> q \<in> W \<Longrightarrow> p = q \<or> ?lt p q \<or> ?lt q p"
    using ord unfolding ordered_def by blast
  from ex have m: "min_b b \<in> V" and M: "max_b b \<in> V"
    and lo: "\<And>y. y \<in> V \<Longrightarrow> y = min_b b \<or> ?lt (min_b b) y"
    and hi: "\<And>y. y \<in> V \<Longrightarrow> y = max_b b \<or> ?lt y (max_b b)"
    unfolding extrema_def by blast+
  have mW: "min_b b \<in> W" and MW: "max_b b \<in> W" using m M sub by blast+
  show ?thesis
  proof (cases "?lt x (min_b b)")
    case True
    have mn: "min_b (bumped N x b) = x" and mx: "max_b (bumped N x b) = max_b b"
      using True by (simp_all add: bumped_def)
    have a: "y = x \<or> ?lt x y" if "y \<in> V" for y
      using lo [OF that] True tr [OF x mW, of y] that sub by blast
    have xm: "x = max_b b \<or> ?lt x (max_b b)"
      using hi [OF m] True tr [OF x mW MW] by metis
    show ?thesis
      unfolding extrema_def mn mx using a xm hi M by blast
  next
    case False
    have mn: "min_b (bumped N x b) = min_b b" using False by (simp add: bumped_def)
    have xl: "x = min_b b \<or> ?lt (min_b b) x" using tot [OF x mW] False by blast
    show ?thesis
    proof (cases "?lt (max_b b) x")
      case True
      have mx: "max_b (bumped N x b) = x" using False True by (simp add: bumped_def)
      have a: "y = x \<or> ?lt y x" if "y \<in> V" for y
        using hi [OF that] True tr [OF _ MW x, of y] that sub by blast
      show ?thesis
        unfolding extrema_def mn mx using a xl lo m by blast
    next
      case F2: False
      have mx: "max_b (bumped N x b) = max_b b" using False F2 by (simp add: bumped_def)
      have xh: "x = max_b b \<or> ?lt x (max_b b)" using tot [OF x MW] F2 by blast
      show ?thesis
        unfolding extrema_def mn mx using xl xh lo hi m M by blast
    qed
  qed
qed

lemma extrema_foldl:
  assumes ord: "ordered N W"
  shows "V \<subseteq> W \<Longrightarrow> set vs \<subseteq> W \<Longrightarrow> extrema N V b \<Longrightarrow>
         extrema N (V \<union> set vs) (foldl (\<lambda>b x. bumped N x b) b vs)"
proof (induction vs arbitrary: V b)
  case Nil
  then show ?case by simp
next
  case (Cons x vs)
  from Cons.prems have x: "x \<in> W" and vs: "set vs \<subseteq> W" by simp_all
  from extrema_bumped [OF ord Cons.prems(1) x Cons.prems(3)]
  have e1: "extrema N (insert x V) (bumped N x b)" .
  have sub1: "insert x V \<subseteq> W" using x Cons.prems(1) by simp
  from Cons.IH [OF sub1 vs e1] show ?case by simp
qed

lemma run_Aggregates_Some:
  "invariant s h \<Longrightarrow> values_hv s a = Some b \<Longrightarrow>
     \<exists>s' h'. run N tmp (map (\<lambda>x. Aggregate_call x a) vs) s h = Inr ([], s', h')
       \<and> invariant s' h' \<and> values_hv s' a = Some (foldl (\<lambda>b x. bumped N x b) b vs)"
proof (induction vs arbitrary: s h b)
  case Nil
  then show ?case by simp
next
  case (Cons x vs)
  let ?s1 = "s\<lparr>values_hv := (values_hv s)(a \<mapsto> bumped N x b)\<rparr>"
  from Aggregate_Some [OF Cons.prems, of N x] obtain h1 where
    a1: "Aggregate N x a s h = Inr (?s1, h1)" by blast
  from invariant_Aggregate [OF Cons.prems(1) a1] have i1: "invariant ?s1 h1" .
  have v1: "values_hv ?s1 a = Some (bumped N x b)" by simp
  from Cons.IH [OF i1 v1] a1 show ?case by simp
qed

text \<open>
  C7, as stated, fails on \<open>float64\<close> values that are not numbers: every comparison with
  \<open>NaN\<close> is false, so \<open>NaN\<close> aggregated first stays as \<open>min\<close> and \<open>max\<close>, and \<open>NaN\<close>
  aggregated later is ignored. The same two values in the two orders give different
  extrema.
\<close>

theorem extrema_NaN_counterexample:
  "(case run float64_number CumulativeTemporality
           [Aggregate_call NaN (0 :: nat), Aggregate_call (Finite 1) 0]
           (\<lparr>bounds = 0, values_hv = Map.empty, noMinMax = False, start = 0\<rparr> :: (nat, float64) histogram)
           \<lparr>uint64s = (\<lambda>x. []), float64s = (\<lambda>x. [])(0 := [Finite 0, Finite 5, Finite 10]), free = 1\<rparr>
    of Inl e \<Rightarrow> None
     | Inr (outs, s, h) \<Rightarrow> map_option (\<lambda>b. (min_b b, max_b b)) (values_hv s 0))
     = Some (NaN, NaN)
   \<and> (case run float64_number CumulativeTemporality
           [Aggregate_call (Finite 1) (0 :: nat), Aggregate_call NaN 0]
           (\<lparr>bounds = 0, values_hv = Map.empty, noMinMax = False, start = 0\<rparr> :: (nat, float64) histogram)
           \<lparr>uint64s = (\<lambda>x. []), float64s = (\<lambda>x. [])(0 := [Finite 0, Finite 5, Finite 10]), free = 1\<rparr>
    of Inl e \<Rightarrow> None
     | Inr (outs, s, h) \<Rightarrow> map_option (\<lambda>b. (min_b b, max_b b)) (values_hv s 0))
     = Some (Finite 1, Finite 1)"
  by (simp add: Aggregate_def bin_def newBuckets_def make_uint64s_def SearchFloat64s_def
      Search_def Search_loop_unfold float64_ge_def float64_eq_def float64_number_def Let_def)

text \<open>
  C7, amended: when \<open><\<close> orders the aggregated values (all \<open>int64\<close> values; \<open>float64\<close>
  values other than \<open>NaN\<close>), then after a non-empty sequence of values is aggregated
  under an attribute set that had no accumulator, the accumulator's \<open>min\<close> and \<open>max\<close>
  are the least and the greatest of the values, whatever their order; after a single
  value both are that value.
\<close>

theorem min_max_are_extrema:
  assumes "newHistogram cfg t0 h0 = (s0, h1)" and "run N tmp cs s0 h1 = Inr (outs, s, h)"
    and "values_hv s a = None" and "ordered N (set (v # vs))"
  shows "case run N tmp (map (\<lambda>x. Aggregate_call x a) (v # vs)) s h of
           Inl e \<Rightarrow> False
         | Inr (outs', s', h') \<Rightarrow>
             (case values_hv s' a of
                None \<Rightarrow> False
              | Some b \<Rightarrow> extrema N (set (v # vs)) b \<and> (vs = [] \<longrightarrow> min_b b = v \<and> max_b b = v))"
proof -
  from run_from_new [OF assms(1), of N tmp cs] assms(2) have inv: "invariant s h" by auto
  let ?b1 = "\<lparr>counts = free h, count = 1, sum_b = num_add N (num_zero N) v, min_b = v, max_b = v\<rparr>"
  let ?s1 = "s\<lparr>values_hv := (values_hv s)(a \<mapsto> ?b1)\<rparr>"
  from Aggregate_None [OF inv assms(3), of N v] obtain h1' where
    a1: "Aggregate N v a s h = Inr (?s1, h1')" by blast
  from invariant_Aggregate [OF inv a1] have i1: "invariant ?s1 h1'" .
  have v1: "values_hv ?s1 a = Some ?b1" by simp
  from run_Aggregates_Some [OF i1 v1, of N tmp vs] obtain s' h' where
    r: "run N tmp (map (\<lambda>x. Aggregate_call x a) vs) ?s1 h1' = Inr ([], s', h')"
    and v': "values_hv s' a = Some (foldl (\<lambda>b x. bumped N x b) ?b1 vs)"
    by blast
  have e1: "extrema N {v} ?b1" by (simp add: extrema_def)
  from extrema_foldl [OF assms(4), of "{v}" vs ?b1] e1
  have e: "extrema N (set (v # vs)) (foldl (\<lambda>b x. bumped N x b) ?b1 vs)" by auto
  have single: "vs = [] \<longrightarrow> min_b (foldl (\<lambda>b x. bumped N x b) ?b1 vs) = v
                  \<and> max_b (foldl (\<lambda>b x. bumped N x b) ?b1 vs) = v"
    by simp
  show ?thesis using a1 r v' e single by simp
qed

theorem min_max_are_extrema_witness:
  "newHistogram \<lparr>Boundaries = [Finite 0, Finite 5, Finite 10], NoMinMax = False\<rparr> 0 empty_heap
     = (\<lparr>bounds = 0, values_hv = Map.empty, noMinMax = False, start = 0\<rparr> :: (nat, int64) histogram,
        \<lparr>uint64s = (\<lambda>x. []), float64s = (\<lambda>x. [])(0 := [Finite 0, Finite 5, Finite 10]), free = 1\<rparr>)
   \<and> ordered int64_number (set [3, 1, 4, 1, 5])
   \<and> (case run int64_number DeltaTemporality (map (\<lambda>x. Aggregate_call x (0 :: nat)) [3, 1, 4, 1, 5])
              (\<lparr>bounds = 0, values_hv = Map.empty, noMinMax = False, start = 0\<rparr> :: (nat, int64) histogram)
              \<lparr>uint64s = (\<lambda>x. []), float64s = (\<lambda>x. [])(0 := [Finite 0, Finite 5, Finite 10]), free = 1\<rparr>
       of Inl e \<Rightarrow> False
        | Inr (outs, s, h) \<Rightarrow>
            (case values_hv s 0 of None \<Rightarrow> False | Some b \<Rightarrow> min_b b = 1 \<and> max_b b = 5))"
  using min_max_are_extrema
    [of "\<lparr>Boundaries = [Finite 0, Finite 5, Finite 10], NoMinMax = False\<rparr>" 0 empty_heap
        "\<lparr>bounds = 0, values_hv = Map.empty, noMinMax = False, start = 0\<rparr> :: (nat, int64) histogram"
        "\<lparr>uint64s = (\<lambda>x. []), float64s = (\<lambda>x. [])(0 := [Finite 0, Finite 5, Finite 10]), free = 1\<rparr>"
        int64_number DeltaTemporality "[]" "[]"
        "\<lparr>bounds = 0, values_hv = Map.empty, noMinMax = False, start = 0\<rparr>"
        "\<lparr>uint64s = (\<lambda>x. []), float64s = (\<lambda>x. [])(0 := [Finite 0, Finite 5, Finite 10]), free = 1\<rparr>"
        0 3 "[1, 4, 1, 5]"]
    ordered_int64 [of "set [3, 1, 4, 1, 5]"]
  by (simp add: newHistogram_eq empty_heap_def Aggregate_def bin_def newBuckets_def
      make_uint64s_def SearchFloat64s_def Search_def Search_loop_unfold float64_ge_def
      float64_eq_def int64_number_def float64_of_int64_def float64_of_int_def Let_def
      Float64Slice_Less_def word_sless_alt)

section \<open>What snapshots report\<close>

lemma contents_data_point:
  "contents h' (data_point s t bnds cnts a b) =
     (a, start s, t, count b, float64s h' bnds, uint64s h' cnts,
      (if noMinMax s then None else Some (min_b b)),
      (if noMinMax s then None else Some (max_b b)), sum_b b)"
  by (simp add: contents_def data_point_def)

lemma map_map_filter: "map g (List.map_filter f xs) = List.map_filter (map_option g \<circ> f) xs"
  by (induction xs) (auto simp: List.map_filter_def)

lemma delta_points:
  assumes "values_hv s \<noteq> Map.empty" "bounds s < free h" "distinct ks"
    and "deltaHistogram_Aggregation t ks s h = (out, s', h')"
  shows "points out =
           List.map_filter
             (\<lambda>a. map_option (\<lambda>b. data_point s t (free h) (counts b) a b) (values_hv s a)) ks"
    and "h' = h\<lparr>free := Suc (free h),
                 float64s := (float64s h)(free h := float64s h (bounds s))\<rparr>"
    and "s' = s\<lparr>values_hv := values_hv s |` (- set ks), start := t\<rparr>"
    and "out \<noteq> None"
  using assms(4) deltaHistogram_range_points [OF assms(3), of t "free h" s "[]"]
  by (auto simp: deltaHistogram_Aggregation_nonempty [OF assms(1,2)] points_def)

lemma delta_contents:
  assumes inv: "invariant s h" and ne: "values_hv s \<noteq> Map.empty" and d: "distinct ks"
    and agg: "deltaHistogram_Aggregation t ks s h = (out, s', h')"
  shows "map (contents h') (points out) = reports s h t ks"
proof -
  note p = delta_points [OF ne invariant_bounds [OF inv] d agg]
  have "(map_option (contents h') \<circ>
          (\<lambda>a. map_option (\<lambda>b. data_point s t (free h) (counts b) a b) (values_hv s a))) a
        = map_option (report s h t a) (values_hv s a)" for a
    by (cases "values_hv s a") (simp_all add: p(2) contents_data_point report_def)
  then show ?thesis
    unfolding p(1) map_map_filter reports_def by (intro map_filter_cong_set) simp
qed

lemma cumulative_points:
  assumes inv: "invariant s h" and ne: "values_hv s \<noteq> Map.empty"
    and agg: "cumulativeHistogram_Aggregation t ks s h = (out, s', h')"
  shows "s' = s \<and> out \<noteq> None \<and> free h < free h'
     \<and> map Attributes (points out) = filter (\<lambda>a. values_hv s a \<noteq> None) ks
     \<and> float64s h' (free h) = float64s h (bounds s)
     \<and> (\<forall>dp\<in>set (points out). Suc (free h) \<le> BucketCounts dp \<and> BucketCounts dp < free h'
           \<and> (\<exists>b. values_hv s (Attributes dp) = Some b
                 \<and> dp = data_point s t (free h) (BucketCounts dp) (Attributes dp) b
                 \<and> uint64s h' (BucketCounts dp) = uint64s h (counts b)))"
proof -
  let ?h1 = "h\<lparr>free := Suc (free h),
              float64s := (float64s h)(free h := float64s h (bounds s))\<rparr>"
  have pre: "\<forall>a b. values_hv s a = Some b \<longrightarrow> counts b < free ?h1"
    using invariant_counts [OF inv] by (auto simp: less_Suc_eq)
  from cumulativeHistogram_range_props [OF pre, of t "free h" ks "[]"]
  obtain h2 new where
    r: "cumulativeHistogram_range t (free h) ks s ?h1 [] = (h2, [] @ new)"
    and f: "free ?h1 \<le> free h2" and fl: "float64s h2 = float64s ?h1"
    and u: "\<forall>x<free ?h1. uint64s h2 x = uint64s ?h1 x"
    and at: "map Attributes new = filter (\<lambda>a. values_hv s a \<noteq> None) ks"
    and el: "\<forall>dp\<in>set new. free ?h1 \<le> BucketCounts dp \<and> BucketCounts dp < free h2
           \<and> (\<exists>b. values_hv s (Attributes dp) = Some b
                 \<and> dp = data_point s t (free h) (BucketCounts dp) (Attributes dp) b
                 \<and> uint64s h2 (BucketCounts dp) = uint64s ?h1 (counts b))"
    by (elim exE conjE) (rule that, assumption+)
  from agg r have o: "out = Some \<lparr>DataPoints = new, Temporality = CumulativeTemporality\<rparr>"
    and s': "s' = s" and h': "h' = h2"
    by (simp_all add: cumulativeHistogram_Aggregation_nonempty [OF ne invariant_bounds [OF inv]])
  have p: "points out = new" by (simp add: o points_def)
  have c1: "free h < free h2" using f by simp
  have c2: "float64s h2 (free h) = float64s h (bounds s)" using fl by simp
  have c3: "Suc (free h) \<le> BucketCounts dp \<and> BucketCounts dp < free h2
           \<and> (\<exists>b. values_hv s (Attributes dp) = Some b
                 \<and> dp = data_point s t (free h) (BucketCounts dp) (Attributes dp) b
                 \<and> uint64s h2 (BucketCounts dp) = uint64s h (counts b))"
    if "dp \<in> set new" for dp
  proof -
    from el that obtain b where b: "free ?h1 \<le> BucketCounts dp" "BucketCounts dp < free h2"
      "values_hv s (Attributes dp) = Some b"
      "dp = data_point s t (free h) (BucketCounts dp) (Attributes dp) b"
      "uint64s h2 (BucketCounts dp) = uint64s ?h1 (counts b)" by blast
    have "uint64s ?h1 (counts b) = uint64s h (counts b)" by simp
    with b show ?thesis by (intro conjI exI [of _ b]) simp_all
  qed
  have c0: "out \<noteq> None" by (simp add: o)
  show ?thesis
    unfolding p s' h' using c0 c1 c2 c3 at by blast
qed

lemma cumulative_contents:
  assumes inv: "invariant s h" and ne: "values_hv s \<noteq> Map.empty"
    and agg: "cumulativeHistogram_Aggregation t ks s h = (out, s', h')"
  shows "map (contents h') (points out) = reports s h t ks"
proof -
  from cumulative_points [OF inv ne agg] have
    at: "map Attributes (points out) = filter (\<lambda>a. values_hv s a \<noteq> None) ks"
    and bn: "float64s h' (free h) = float64s h (bounds s)"
    and el: "\<forall>dp\<in>set (points out). \<exists>b. values_hv s (Attributes dp) = Some b
                 \<and> dp = data_point s t (free h) (BucketCounts dp) (Attributes dp) b
                 \<and> uint64s h' (BucketCounts dp) = uint64s h (counts b)"
    by auto
  have "contents h' dp = (the \<circ> (\<lambda>a. map_option (report s h t a) (values_hv s a))) (Attributes dp)"
    if "dp \<in> set (points out)" for dp
  proof -
    from el that obtain b where b: "values_hv s (Attributes dp) = Some b"
      "dp = data_point s t (free h) (BucketCounts dp) (Attributes dp) b"
      "uint64s h' (BucketCounts dp) = uint64s h (counts b)" by blast
    have "contents h' dp = contents h' (data_point s t (free h) (BucketCounts dp) (Attributes dp) b)"
      using b(2) by simp
    also have "\<dots> = report s h t (Attributes dp) b"
      by (simp add: contents_data_point report_def bn b(3))
    finally show ?thesis using b(1) by simp
  qed
  then have "map (contents h') (points out)
      = map ((the \<circ> (\<lambda>a. map_option (report s h t a) (values_hv s a))) \<circ> Attributes) (points out)"
    by (intro map_cong refl) simp
  also have "\<dots> = map (the \<circ> (\<lambda>a. map_option (report s h t a) (values_hv s a)))
                     (filter (\<lambda>a. values_hv s a \<noteq> None) ks)"
    using at by (simp flip: map_map)
  also have "\<dots> = reports s h t ks"
    by (simp add: reports_def List.map_filter_def)
  finally show ?thesis .
qed

lemma Aggregation_points_present:
  assumes inv: "invariant s h" and agg: "Aggregation tmp t ks s h = (out, s', h')"
  shows "\<forall>dp\<in>set (points out). \<exists>b. values_hv s (Attributes dp) = Some b
           \<and> StartTime dp = start s \<and> Time dp = t \<and> Count dp = count b \<and> Sum_dp dp = sum_b b"
proof (cases "values_hv s = Map.empty")
  case True
  with agg show ?thesis
    by (cases tmp)
      (simp_all add: Aggregation_def deltaHistogram_Aggregation_empty
        cumulativeHistogram_Aggregation_empty points_def)
next
  case False
  show ?thesis
  proof (cases tmp)
    case CumulativeTemporality
    with agg have "cumulativeHistogram_Aggregation t ks s h = (out, s', h')"
      by (simp add: Aggregation_def)
    from cumulative_points [OF inv False this] have
      el: "\<forall>dp\<in>set (points out). \<exists>b. values_hv s (Attributes dp) = Some b
                 \<and> dp = data_point s t (free h) (BucketCounts dp) (Attributes dp) b"
      by blast
    show ?thesis
    proof
      fix dp assume "dp \<in> set (points out)"
      with el obtain b where b: "values_hv s (Attributes dp) = Some b"
        "dp = data_point s t (free h) (BucketCounts dp) (Attributes dp) b" by blast
      have "StartTime dp = start s \<and> Time dp = t \<and> Count dp = count b \<and> Sum_dp dp = sum_b b"
        by (subst b(2), subst b(2), subst b(2), subst b(2)) (simp add: data_point_def)
      with b(1) show "\<exists>b. values_hv s (Attributes dp) = Some b
           \<and> StartTime dp = start s \<and> Time dp = t \<and> Count dp = count b \<and> Sum_dp dp = sum_b b"
        by blast
    qed
  next
    case DeltaTemporality
    with agg False invariant_bounds [OF inv]
    have o: "points out = snd (deltaHistogram_range t (free h) ks s [])"
      by (auto simp: Aggregation_def deltaHistogram_Aggregation_nonempty points_def)
    have "\<forall>dp\<in>set (snd (deltaHistogram_range t bnds ks s0 dps)).
            dp \<in> set dps \<or> (\<exists>b. values_hv s0 (Attributes dp) = Some b
              \<and> StartTime dp = start s0 \<and> Time dp = t \<and> Count dp = count b \<and> Sum_dp dp = sum_b b)"
      for bnds dps and s0 :: "('a, 'b) histogram"
    proof (induction ks arbitrary: s0 dps)
      case Nil
      then show ?case by simp
    next
      case (Cons a ks)
      show ?case
      proof (cases "values_hv s0 a")
        case None
        with Cons show ?thesis by simp
      next
        case (Some b)
        let ?s1 = "s0\<lparr>values_hv := (values_hv s0)(a := None)\<rparr>"
        let ?dp = "data_point s0 t bnds (counts b) a b"
        have st: "snd (deltaHistogram_range t bnds (a # ks) s0 dps)
                  = snd (deltaHistogram_range t bnds ks ?s1 (dps @ [?dp]))"
          using Some by simp
        show ?thesis
          unfolding st
        proof
          fix dp assume "dp \<in> set (snd (deltaHistogram_range t bnds ks ?s1 (dps @ [?dp])))"
          with Cons.IH [of ?s1 "dps @ [?dp]"] have
            "dp \<in> set (dps @ [?dp]) \<or> (\<exists>b. values_hv ?s1 (Attributes dp) = Some b
              \<and> StartTime dp = start ?s1 \<and> Time dp = t \<and> Count dp = count b \<and> Sum_dp dp = sum_b b)"
            by blast
          then consider "dp \<in> set dps" | "dp = ?dp"
            | c where "values_hv ?s1 (Attributes dp) = Some c" "StartTime dp = start ?s1"
                "Time dp = t" "Count dp = count c" "Sum_dp dp = sum_b c"
            by auto
          then show "dp \<in> set dps \<or> (\<exists>b. values_hv s0 (Attributes dp) = Some b
              \<and> StartTime dp = start s0 \<and> Time dp = t \<and> Count dp = count b \<and> Sum_dp dp = sum_b b)"
          proof cases
            case 1
            then show ?thesis by simp
          next
            case 2
            have "Attributes ?dp = a" "StartTime ?dp = start s0" "Time ?dp = t"
              "Count ?dp = count b" "Sum_dp ?dp = sum_b b"
              by (simp_all add: data_point_def)
            with 2 Some show ?thesis by simp
          next
            case 3
            from 3(1) have "values_hv s0 (Attributes dp) = Some c"
              by (simp split: if_splits)
            with 3 show ?thesis by simp
          qed
        qed
      qed
    qed
    from this [of "free h" s "[]"] show ?thesis unfolding o by simp
  qed
qed

lemma run_never_reports:
  "invariant s h \<Longrightarrow> values_hv s a = None \<Longrightarrow> a \<notin> observed cs \<Longrightarrow>
     run N tmp cs s h = Inr (outs, s', h') \<Longrightarrow>
     \<forall>out\<in>set outs. a \<notin> Attributes ` set (points out)"
proof (induction cs arbitrary: s h outs)
  case Nil
  then show ?case by simp
next
  case (Cons c cs)
  show ?case
  proof (cases c)
    case (Aggregate_call v x)
    with Cons.prems have xa: "x \<noteq> a" and obs: "a \<notin> observed cs" by auto
    from Aggregate_total [OF Cons.prems(1), of N v x] obtain s1 h1 where
      a1: "Aggregate N v x s h = Inr (s1, h1)" by blast
    from Aggregate_state [OF Cons.prems(1) a1] xa Cons.prems(2)
    have v1: "values_hv s1 a = None" by auto
    from Cons.prems(4) a1 Aggregate_call have r: "run N tmp cs s1 h1 = Inr (outs, s', h')" by simp
    from Cons.IH [OF invariant_Aggregate [OF Cons.prems(1) a1] v1 obs r] show ?thesis .
  next
    case (Aggregation_call t ks)
    with Cons.prems have obs: "a \<notin> observed cs" by simp
    obtain out s1 h1 where a1: "Aggregation tmp t ks s h = (out, s1, h1)"
      by (cases "Aggregation tmp t ks s h") auto
    from Aggregation_state [OF invariant_bounds [OF Cons.prems(1)] a1] Cons.prems(2)
    have v1: "values_hv s1 a = None" by auto
    from Cons.prems(4) a1 Aggregation_call obtain outs1 where
      r: "run N tmp cs s1 h1 = Inr (outs1, s', h')" and o: "outs = out # outs1"
      by (auto split: sum.splits)
    from Aggregation_points_present [OF Cons.prems(1) a1] Cons.prems(2)
    have "a \<notin> Attributes ` set (points out)" by fastforce
    with Cons.IH [OF invariant_Aggregation [OF Cons.prems(1) a1] v1 obs r] o
    show ?thesis by simp
  qed
qed

section \<open>Cumulative histograms\<close>

lemma run_cumulative:
  "invariant s h \<Longrightarrow> run N CumulativeTemporality cs s h = Inr (outs, s', h') \<Longrightarrow>
     start s' = start s \<and> dom (values_hv s') = dom (values_hv s) \<union> observed cs
     \<and> (\<forall>out\<in>set outs. \<forall>dp\<in>set (points out). StartTime dp = start s)"
proof (induction cs arbitrary: s h outs)
  case Nil
  then show ?case by simp
next
  case (Cons c cs)
  show ?case
  proof (cases c)
    case (Aggregate_call v x)
    from Aggregate_total [OF Cons.prems(1), of N v x] obtain s1 h1 where
      a1: "Aggregate N v x s h = Inr (s1, h1)" by blast
    from Aggregate_state [OF Cons.prems(1) a1] have
      st: "start s1 = start s" and vo: "\<forall>y. y \<noteq> x \<longrightarrow> values_hv s1 y = values_hv s y"
      and vx: "values_hv s1 x \<noteq> None" by simp_all
    have d: "dom (values_hv s1) = insert x (dom (values_hv s))"
      using vo vx by (auto simp: dom_def)
    from Cons.prems(2) a1 Aggregate_call have r: "run N CumulativeTemporality cs s1 h1 = Inr (outs, s', h')"
      by simp
    from Cons.IH [OF invariant_Aggregate [OF Cons.prems(1) a1] r] st d Aggregate_call
    show ?thesis by auto
  next
    case (Aggregation_call t ks)
    obtain out s1 h1 where a1: "Aggregation CumulativeTemporality t ks s h = (out, s1, h1)"
      by (cases "Aggregation CumulativeTemporality t ks s h") auto
    from Aggregation_state [OF invariant_bounds [OF Cons.prems(1)] a1] have s1: "s1 = s" by simp
    from Cons.prems(2) a1 Aggregation_call obtain outs1 where
      r: "run N CumulativeTemporality cs s1 h1 = Inr (outs1, s', h')" and o: "outs = out # outs1"
      by (auto split: sum.splits)
    from Aggregation_points_present [OF Cons.prems(1) a1]
    have p: "\<forall>dp\<in>set (points out). StartTime dp = start s" by blast
    from Cons.IH [OF invariant_Aggregation [OF Cons.prems(1) a1] r] s1 o p Aggregation_call
    show ?thesis by auto
  qed
qed

lemma cumulative_single_point:
  assumes inv: "invariant s h" and v: "values_hv s a = Some b"
  shows "\<exists>out h' dp. cumulativeHistogram_Aggregation t [a] s h = (out, s, h') \<and> points out = [dp]
           \<and> Attributes dp = a \<and> StartTime dp = start s \<and> Time dp = t \<and> Count dp = count b
           \<and> Sum_dp dp = sum_b b"
proof -
  obtain out s' h' where agg: "cumulativeHistogram_Aggregation t [a] s h = (out, s', h')"
    by (cases "cumulativeHistogram_Aggregation t [a] s h") auto
  have ne: "values_hv s \<noteq> Map.empty" using v by auto
  from cumulative_points [OF inv ne agg] v have s': "s' = s"
    and at: "map Attributes (points out) = [a]"
    and el: "\<forall>dp\<in>set (points out). \<exists>b. values_hv s (Attributes dp) = Some b
                 \<and> dp = data_point s t (free h) (BucketCounts dp) (Attributes dp) b"
    by auto
  from at obtain dp where p: "points out = [dp]" and a: "Attributes dp = a" by auto
  from el p a v have dp: "dp = data_point s t (free h) (BucketCounts dp) a b" by auto
  have "StartTime dp = start s \<and> Time dp = t \<and> Count dp = count b \<and> Sum_dp dp = sum_b b"
    by (subst dp, subst dp, subst dp, subst dp) (simp add: data_point_def)
  with agg s' p a show ?thesis by blast
qed

text \<open>
  C5: on a cumulative histogram made by the constructor at time \<open>t0\<close>, no sequence of
  calls panics; after it \<open>start\<close> is still \<open>t0\<close>, every attribute set ever observed
  still has its entry, every data point of every snapshot has the start time \<open>t0\<close>, and
  a further snapshot leaves the aggregator as it is. Aggregating \<open>v1\<close>, taking a snapshot,
  aggregating \<open>v2\<close> with the same attribute set and taking a second snapshot gives, in the
  second one, one data point with the count \<open>2\<close> and the sum \<open>(0 + v1) + v2\<close>.
\<close>

theorem cumulative_keeps_entries_and_start:
  assumes "newCumulativeHistogram cfg t0 h0 = (s0, h1)"
  shows "(case run N CumulativeTemporality cs s0 h1 of
            Inl e \<Rightarrow> False
          | Inr (outs, s, h) \<Rightarrow>
              start s = t0 \<and> dom (values_hv s) = observed cs
              \<and> (\<forall>out\<in>set outs. \<forall>dp\<in>set (points out). StartTime dp = t0)
              \<and> fst (snd (cumulativeHistogram_Aggregation t ks s h)) = s)
       \<and> (case run N CumulativeTemporality
                 [Aggregate_call v1 a, Aggregation_call t1 ks1, Aggregate_call v2 a,
                  Aggregation_call t2 [a]] s0 h1 of
            Inl e \<Rightarrow> False
          | Inr (outs, s, h) \<Rightarrow>
              (case map points outs of
                 [p1, [dp]] \<Rightarrow>
                   Attributes dp = a \<and> StartTime dp = t0 \<and> Time dp = t2 \<and> Count dp = 2
                   \<and> Sum_dp dp = num_add N (num_add N (num_zero N) v1) v2
               | _ \<Rightarrow> False))"
proof -
  from assms have new: "newHistogram cfg t0 h0 = (s0, h1)"
    by (simp add: newCumulativeHistogram_def)
  from new have i0: "invariant s0 h1" by (rule invariant_newHistogram)
  from new have st0: "start s0 = t0" and v0: "values_hv s0 = Map.empty"
    by (auto simp: newHistogram_eq)
  have first: "case run N CumulativeTemporality cs s0 h1 of
            Inl e \<Rightarrow> False
          | Inr (outs, s, h) \<Rightarrow>
              start s = t0 \<and> dom (values_hv s) = observed cs
              \<and> (\<forall>out\<in>set outs. \<forall>dp\<in>set (points out). StartTime dp = t0)
              \<and> fst (snd (cumulativeHistogram_Aggregation t ks s h)) = s"
  proof -
    from run_invariant [OF i0, of N CumulativeTemporality cs] obtain outs s h where
      r: "run N CumulativeTemporality cs s0 h1 = Inr (outs, s, h)" by blast
    have "fst (snd (cumulativeHistogram_Aggregation t ks s h)) = s"
      by (simp add: cumulativeHistogram_Aggregation_def split: prod.splits)
    with run_cumulative [OF i0 r] st0 v0 r show ?thesis by simp
  qed
  have second: "case run N CumulativeTemporality
                 [Aggregate_call v1 a, Aggregation_call t1 ks1, Aggregate_call v2 a,
                  Aggregation_call t2 [a]] s0 h1 of
            Inl e \<Rightarrow> False
          | Inr (outs, s, h) \<Rightarrow>
              (case map points outs of
                 [p1, [dp]] \<Rightarrow>
                   Attributes dp = a \<and> StartTime dp = t0 \<and> Time dp = t2 \<and> Count dp = 2
                   \<and> Sum_dp dp = num_add N (num_add N (num_zero N) v1) v2
               | _ \<Rightarrow> False)"
  proof -
    let ?b1 = "\<lparr>counts = free h1, count = 1, sum_b = num_add N (num_zero N) v1, min_b = v1,
                max_b = v1\<rparr>"
    let ?s1 = "s0\<lparr>values_hv := (values_hv s0)(a \<mapsto> ?b1)\<rparr>"
    have none: "values_hv s0 a = None" by (simp add: v0)
    from Aggregate_None [OF i0 none, of N v1] obtain h2 where
      a1: "Aggregate N v1 a s0 h1 = Inr (?s1, h2)" by blast
    from invariant_Aggregate [OF i0 a1] have i1: "invariant ?s1 h2" .
    obtain out1 sx h3 where g1: "Aggregation CumulativeTemporality t1 ks1 ?s1 h2 = (out1, sx, h3)"
      by (cases "Aggregation CumulativeTemporality t1 ks1 ?s1 h2") auto
    from Aggregation_state [OF invariant_bounds [OF i1] g1] have sx: "sx = ?s1" by simp
    from invariant_Aggregation [OF i1 g1] sx have i2: "invariant ?s1 h3" by simp
    let ?s2 = "?s1\<lparr>values_hv := (values_hv ?s1)(a \<mapsto> bumped N v2 ?b1)\<rparr>"
    have some: "values_hv ?s1 a = Some ?b1" by simp
    from Aggregate_Some [OF i2 some, of N v2] obtain h4 where
      a2: "Aggregate N v2 a ?s1 h3 = Inr (?s2, h4)" by blast
    from invariant_Aggregate [OF i2 a2] have i3: "invariant ?s2 h4" .
    have v2: "values_hv ?s2 a = Some (bumped N v2 ?b1)" by simp
    from cumulative_single_point [OF i3 v2, of t2] obtain out2 h5 dp where
      g2: "cumulativeHistogram_Aggregation t2 [a] ?s2 h4 = (out2, ?s2, h5)"
      and p: "points out2 = [dp]" and d: "Attributes dp = a" "StartTime dp = start ?s2"
      "Time dp = t2" "Count dp = count (bumped N v2 ?b1)" "Sum_dp dp = sum_b (bumped N v2 ?b1)"
      by blast
    have r: "run N CumulativeTemporality
                 [Aggregate_call v1 a, Aggregation_call t1 ks1, Aggregate_call v2 a,
                  Aggregation_call t2 [a]] s0 h1 = Inr ([out1, out2], ?s2, h5)"
      using a1 g1 sx a2 g2 by (simp add: Aggregation_def)
    show ?thesis
      unfolding r using p d st0 by simp
  qed
  from first second show ?thesis by blast
qed

theorem cumulative_keeps_entries_and_start_witness:
  "newCumulativeHistogram \<lparr>Boundaries = [Finite 0, Finite 5, Finite 10], NoMinMax = False\<rparr> 7
       empty_heap
     = (\<lparr>bounds = 0, values_hv = Map.empty, noMinMax = False, start = 7\<rparr> :: (nat, int64) histogram,
        \<lparr>uint64s = (\<lambda>x. []), float64s = (\<lambda>x. [])(0 := [Finite 0, Finite 5, Finite 10]), free = 1\<rparr>)
   \<and> (case run int64_number CumulativeTemporality
              [Aggregate_call 3 (0 :: nat), Aggregation_call 8 [0], Aggregate_call 9 0,
               Aggregation_call 10 [0]]
              (\<lparr>bounds = 0, values_hv = Map.empty, noMinMax = False, start = 7\<rparr> :: (nat, int64) histogram)
              \<lparr>uint64s = (\<lambda>x. []), float64s = (\<lambda>x. [])(0 := [Finite 0, Finite 5, Finite 10]), free = 1\<rparr>
       of Inl e \<Rightarrow> False
        | Inr (outs, s, h) \<Rightarrow>
            start s = 7
            \<and> map (\<lambda>out. map (contents h) (points out)) outs =
                [[(0, 7, 8, 1, [Finite 0, Finite 5, Finite 10], [0, 1, 0, 0], Some 3, Some 3, 3)],
                 [(0, 7, 10, 2, [Finite 0, Finite 5, Finite 10], [0, 1, 1, 0], Some 3, Some 9, 12)]])"
  using cumulative_keeps_entries_and_start
    [where cfg = "\<lparr>Boundaries = [Finite 0, Finite 5, Finite 10], NoMinMax = False\<rparr>"
       and ?t0.0 = 7 and ?h0.0 = empty_heap
       and ?s0.0 = "\<lparr>bounds = 0, values_hv = Map.empty, noMinMax = False, start = 7\<rparr> :: (nat, int64) histogram"
       and ?h1.0 = "\<lparr>uint64s = (\<lambda>x. []), float64s = (\<lambda>x. [])(0 := [Finite 0, Finite 5, Finite 10]), free = 1\<rparr>"
       and N = int64_number and cs = "[]" and t = 8 and ks = "[]" and ?v1.0 = 3 and a = 0
       and ?t1.0 = 8 and ?ks1.0 = "[0]" and ?v2.0 = 9 and ?t2.0 = 10]
  by (simp add: newCumulativeHistogram_def newHistogram_eq empty_heap_def Aggregate_def bin_def
      newBuckets_def make_uint64s_def make_float64s_def copy_uint64s_def copy_float64s_def
      SearchFloat64s_def Search_def Search_loop_unfold float64_ge_def float64_eq_def
      int64_number_def float64_of_int64_def float64_of_int_def Let_def Float64Slice_Less_def
      word_sless_alt Aggregation_def cumulativeHistogram_Aggregation_def data_point_def
      contents_def points_def)

section \<open>Delta histograms\<close>

lemma map_Attributes_data_points:
  "set ks \<subseteq> dom m \<Longrightarrow>
     map Attributes
       (List.map_filter (\<lambda>a. map_option (\<lambda>b. data_point s t bnds (counts b) a b) (m a)) ks) = ks"
proof (induction ks)
  case Nil
  then show ?case by simp
next
  case (Cons a ks)
  then obtain b where "m a = Some b" by auto
  with Cons show ?case by (simp add: data_point_def)
qed

lemma restrict_map_to_none: "dom m \<subseteq> K \<Longrightarrow> m |` (- K) = Map.empty"
  by (auto simp: restrict_map_def fun_eq_iff)

text \<open>
  C4, as stated, fails on a snapshot of a delta histogram that holds no data, such as the
  second of two immediate snapshots: it returns \<open>nil\<close>, not an empty collection, and
  leaves \<open>start\<close> at the time of the first snapshot instead of advancing it.
\<close>

theorem delta_second_snapshot_counterexample:
  "(case run int64_number DeltaTemporality
           [Aggregate_call 3 (0 :: nat), Aggregation_call 1 [0], Aggregation_call 2 []]
           (\<lparr>bounds = 0, values_hv = Map.empty, noMinMax = False, start = 0\<rparr> :: (nat, int64) histogram)
           \<lparr>uint64s = (\<lambda>x. []), float64s = (\<lambda>x. [])(0 := [Finite 0, Finite 5, Finite 10]), free = 1\<rparr>
    of Inl e \<Rightarrow> None
     | Inr (outs, s, h) \<Rightarrow> Some (outs ! 1, start s))
   = Some (None, 1)"
  by (simp add: Aggregate_def bin_def newBuckets_def make_uint64s_def make_float64s_def
      copy_float64s_def SearchFloat64s_def Search_def Search_loop_unfold float64_ge_def
      float64_eq_def int64_number_def float64_of_int64_def float64_of_int_def Let_def
      word_sless_alt Aggregation_def deltaHistogram_Aggregation_def data_point_def)

text \<open>
  C4, amended: on a delta histogram made by the constructor, after any calls, a snapshot
  of a map that holds entries reports one data point per entry, in the order of the
  range, with the window from \<open>start\<close> to the time of the snapshot and the accumulated
  values, removes every entry and sets \<open>start\<close> to the time of the snapshot; a snapshot of
  a map that holds no entry returns \<open>nil\<close> and leaves \<open>start\<close> as it is. Consequently a
  second immediate snapshot returns \<open>nil\<close> (no data point, no error), and an attribute set
  that is not observed again appears in no later snapshot.
\<close>

theorem delta_snapshot_reports_and_resets:
  assumes "newDeltaHistogram cfg t0 h0 = (s0, h1)"
    and "run N DeltaTemporality cs s0 h1 = Inr (outs, s, h)"
    and "range_order ks (values_hv s)" and "a \<notin> observed cs'"
  shows "case deltaHistogram_Aggregation t ks s h of
           (out, s', h') \<Rightarrow>
             (if values_hv s = Map.empty then out = None \<and> s' = s \<and> h' = h
              else out \<noteq> None \<and> map Attributes (points out) = ks
                   \<and> map (contents h') (points out) = reports s h t ks
                   \<and> (\<forall>dp\<in>set (points out). StartTime dp = start s \<and> Time dp = t)
                   \<and> values_hv s' = Map.empty \<and> start s' = t)
             \<and> deltaHistogram_Aggregation t2 ks2 s' h' = (None, s', h')
             \<and> (case run N DeltaTemporality cs' s' h' of
                   Inl e \<Rightarrow> False
                 | Inr (outs', s'', h'') \<Rightarrow>
                     \<forall>out'\<in>set outs'. a \<notin> Attributes ` set (points out'))"
proof -
  from assms(1) have new: "newHistogram cfg t0 h0 = (s0, h1)"
    by (simp add: newDeltaHistogram_def)
  from run_from_new [OF new, of N DeltaTemporality cs] assms(2) have inv: "invariant s h" by auto
  obtain out s' h' where agg: "deltaHistogram_Aggregation t ks s h = (out, s', h')"
    by (cases "deltaHistogram_Aggregation t ks s h") auto
  then have agg': "Aggregation DeltaTemporality t ks s h = (out, s', h')"
    by (simp add: Aggregation_def)
  from invariant_Aggregation [OF inv agg'] have inv': "invariant s' h'" .
  from assms(3) have d: "distinct ks" and k: "set ks = dom (values_hv s)"
    by (simp_all add: range_order_def)
  have first: "if values_hv s = Map.empty then out = None \<and> s' = s \<and> h' = h
              else out \<noteq> None \<and> map Attributes (points out) = ks
                   \<and> map (contents h') (points out) = reports s h t ks
                   \<and> (\<forall>dp\<in>set (points out). StartTime dp = start s \<and> Time dp = t)
                   \<and> values_hv s' = Map.empty \<and> start s' = t"
  proof (cases "values_hv s = Map.empty")
    case True
    with agg show ?thesis by (simp add: deltaHistogram_Aggregation_empty)
  next
    case False
    note p = delta_points [OF False invariant_bounds [OF inv] d agg]
    have 1: "map Attributes (points out) = ks"
      unfolding p(1) using k by (intro map_Attributes_data_points) simp
    have 2: "map (contents h') (points out) = reports s h t ks"
      by (rule delta_contents [OF inv False d agg])
    have 3: "\<forall>dp\<in>set (points out). StartTime dp = start s \<and> Time dp = t"
      using Aggregation_points_present [OF inv agg'] by blast
    have 4: "values_hv s' = Map.empty" "start s' = t"
      using k by (simp_all add: p(3) restrict_map_to_none)
    from False p(4) 1 2 3 4 show ?thesis by simp
  qed
  have empty': "values_hv s' = Map.empty"
    using first agg by (auto split: if_splits)
  have second: "deltaHistogram_Aggregation t2 ks2 s' h' = (None, s', h')"
    using empty' by (rule deltaHistogram_Aggregation_empty)
  have third: "case run N DeltaTemporality cs' s' h' of
                   Inl e \<Rightarrow> False
                 | Inr (outs', s'', h'') \<Rightarrow>
                     \<forall>out'\<in>set outs'. a \<notin> Attributes ` set (points out')"
  proof -
    from run_invariant [OF inv', of N DeltaTemporality cs'] obtain outs' s'' h'' where
      r: "run N DeltaTemporality cs' s' h' = Inr (outs', s'', h'')" by blast
    have "values_hv s' a = None" by (simp add: empty')
    from run_never_reports [OF inv' this assms(4) r] r show ?thesis by simp
  qed
  show ?thesis unfolding agg using first second third by simp
qed

theorem delta_snapshot_reports_and_resets_witness:
  "newDeltaHistogram \<lparr>Boundaries = [Finite 0, Finite 5, Finite 10], NoMinMax = False\<rparr> 0 empty_heap
     = (\<lparr>bounds = 0, values_hv = Map.empty, noMinMax = False, start = 0\<rparr> :: (nat, int64) histogram,
        \<lparr>uint64s = (\<lambda>x. []), float64s = (\<lambda>x. [])(0 := [Finite 0, Finite 5, Finite 10]), free = 1\<rparr>)
   \<and> run int64_number DeltaTemporality [Aggregate_call 3 (0 :: nat)]
        (\<lparr>bounds = 0, values_hv = Map.empty, noMinMax = False, start = 0\<rparr> :: (nat, int64) histogram)
        \<lparr>uint64s = (\<lambda>x. []), float64s = (\<lambda>x. [])(0 := [Finite 0, Finite 5, Finite 10]), free = 1\<rparr>
     = Inr ([],
         \<lparr>bounds = 0,
           values_hv = [0 \<mapsto> \<lparr>counts = 1, count = 1, sum_b = 3, min_b = 3, max_b = 3\<rparr>],
           noMinMax = False, start = 0\<rparr>,
         \<lparr>uint64s = (\<lambda>x. [])(1 := [0, 1, 0, 0]),
           float64s = (\<lambda>x. [])(0 := [Finite 0, Finite 5, Finite 10]), free = 2\<rparr>)
   \<and> range_order [0 :: nat]
        [0 \<mapsto> \<lparr>counts = 1, count = 1, sum_b = 3 :: int64, min_b = 3, max_b = 3\<rparr>]
   \<and> (0 :: nat) \<notin> observed [Aggregate_call (4 :: int64) 1, Aggregation_call 9 [1]]
   \<and> (case deltaHistogram_Aggregation 5 [0]
              (\<lparr>bounds = 0,
                 values_hv = [0 \<mapsto> \<lparr>counts = 1, count = 1, sum_b = 3, min_b = 3, max_b = 3\<rparr>],
                 noMinMax = False, start = 0\<rparr> :: (nat, int64) histogram)
              \<lparr>uint64s = (\<lambda>x. [])(1 := [0, 1, 0, 0]),
                float64s = (\<lambda>x. [])(0 := [Finite 0, Finite 5, Finite 10]), free = 2\<rparr>
       of (out, s', h') \<Rightarrow>
            map (contents h') (points out) =
              [(0, 0, 5, 1, [Finite 0, Finite 5, Finite 10], [0, 1, 0, 0], Some 3, Some 3, 3)]
            \<and> values_hv s' = Map.empty \<and> start s' = 5
            \<and> deltaHistogram_Aggregation 6 [] s' h' = (None, s', h')
            \<and> (case run int64_number DeltaTemporality
                        [Aggregate_call 4 1, Aggregation_call 9 [1]] s' h'
                 of Inl e \<Rightarrow> False
                  | Inr (outs', s'', h'') \<Rightarrow>
                      map (\<lambda>out'. map Attributes (points out')) outs' = [[1]]))"
  using delta_snapshot_reports_and_resets
    [where cfg = "\<lparr>Boundaries = [Finite 0, Finite 5, Finite 10], NoMinMax = False\<rparr>"
       and ?t0.0 = 0 and ?h0.0 = empty_heap
       and ?s0.0 = "\<lparr>bounds = 0, values_hv = Map.empty, noMinMax = False, start = 0\<rparr> :: (nat, int64) histogram"
       and ?h1.0 = "\<lparr>uint64s = (\<lambda>x. []), float64s = (\<lambda>x. [])(0 := [Finite 0, Finite 5, Finite 10]), free = 1\<rparr>"
       and N = int64_number and cs = "[Aggregate_call 3 (0 :: nat)]" and outs = "[]"
       and s = "\<lparr>bounds = 0,
                 values_hv = [0 \<mapsto> \<lparr>counts = 1, count = 1, sum_b = 3, min_b = 3, max_b = 3\<rparr>],
                 noMinMax = False, start = 0\<rparr>"
       and h = "\<lparr>uint64s = (\<lambda>x. [])(1 := [0, 1, 0, 0]),
                float64s = (\<lambda>x. [])(0 := [Finite 0, Finite 5, Finite 10]), free = 2\<rparr>"
       and ks = "[0]" and a = 0 and cs' = "[Aggregate_call 4 1, Aggregation_call 9 [1]]"
       and t = 5 and ?t2.0 = 6 and ?ks2.0 = "[]"]
  by (simp add: newDeltaHistogram_def newHistogram_eq empty_heap_def Aggregate_def bin_def
      newBuckets_def make_uint64s_def make_float64s_def copy_float64s_def
      SearchFloat64s_def Search_def Search_loop_unfold float64_ge_def float64_eq_def
      int64_number_def float64_of_int64_def float64_of_int_def Let_def Float64Slice_Less_def
      word_sless_alt Aggregation_def deltaHistogram_Aggregation_def data_point_def
      contents_def points_def range_order_def)

section \<open>Slices handed out by snapshots\<close>

lemma in_set_map_filter: "y \<in> set (List.map_filter f xs) \<longleftrightarrow> (\<exists>x\<in>set xs. f x = Some y)"
  by (induction xs) (auto simp: List.map_filter_def)

lemma reports_accumulators:
  "accumulators s h1 = accumulators s h2 \<Longrightarrow> reports s h1 t ks = reports s h2 t ks"
proof -
  assume eq: "accumulators s h1 = accumulators s h2"
  then have f: "float64s h1 (bounds s) = float64s h2 (bounds s)"
    by (simp add: accumulators_def)
  have u: "uint64s h1 (counts b) = uint64s h2 (counts b)" if "values_hv s a = Some b" for a b
  proof -
    from eq have "snd (accumulators s h1) a = snd (accumulators s h2) a" by simp
    with that show ?thesis by (simp add: accumulators_def)
  qed
  have "map_option (report s h1 t a) (values_hv s a) = map_option (report s h2 t a) (values_hv s a)"
    for a
    by (cases "values_hv s a") (simp_all add: report_def f u)
  then show ?thesis by (simp add: reports_def)
qed

lemma snapshot_contents:
  assumes inv: "invariant s h" and d: "distinct ks"
    and agg: "Aggregation tmp t ks s h = (out, s', h')"
  shows "map (contents h') (points out) = reports s h t ks"
proof (cases "values_hv s = Map.empty")
  case True
  then have "reports s h t ks = []" by (simp add: reports_def List.map_filter_def)
  with True agg show ?thesis
    by (cases tmp)
      (simp_all add: Aggregation_def deltaHistogram_Aggregation_empty
        cumulativeHistogram_Aggregation_empty points_def)
next
  case False
  with agg show ?thesis
    by (cases tmp)
      (simp_all add: Aggregation_def delta_contents [OF inv False d]
        cumulative_contents [OF inv False])
qed

lemma snapshot_point:
  assumes inv: "invariant s h" and d: "distinct ks"
    and agg: "Aggregation tmp t ks s h = (out, s', h')" and dp: "dp \<in> set (points out)"
  shows "\<exists>b. values_hv s (Attributes dp) = Some b \<and> Bounds dp = free h \<and> free h < free h'
           \<and> float64s h' (free h) = float64s h (bounds s)
           \<and> (tmp = DeltaTemporality \<longrightarrow>
                BucketCounts dp = counts b \<and> Attributes dp \<in> set ks
                \<and> values_hv s' = values_hv s |` (- set ks))
           \<and> (tmp = CumulativeTemporality \<longrightarrow>
                Suc (free h) \<le> BucketCounts dp \<and> BucketCounts dp < free h' \<and> s' = s
                \<and> uint64s h' (BucketCounts dp) = uint64s h (counts b))"
proof -
  have ne: "values_hv s \<noteq> Map.empty"
  proof
    assume "values_hv s = Map.empty"
    with agg have "points out = []"
      by (cases tmp)
        (simp_all add: Aggregation_def deltaHistogram_Aggregation_empty
          cumulativeHistogram_Aggregation_empty points_def)
    with dp show False by simp
  qed
  show ?thesis
  proof (cases tmp)
    case DeltaTemporality
    with agg have agg': "deltaHistogram_Aggregation t ks s h = (out, s', h')"
      by (simp add: Aggregation_def)
    note p = delta_points [OF ne invariant_bounds [OF inv] d agg']
    from dp obtain a where a: "a \<in> set ks"
      "map_option (\<lambda>b. data_point s t (free h) (counts b) a b) (values_hv s a) = Some dp"
      unfolding p(1) in_set_map_filter by blast
    then obtain b where b: "values_hv s a = Some b" "dp = data_point s t (free h) (counts b) a b"
      by auto
    have "Attributes dp = a" "Bounds dp = free h" "BucketCounts dp = counts b"
      by (simp_all add: b(2) data_point_def)
    with a(1) b(1) DeltaTemporality show ?thesis by (simp add: p(2) p(3))
  next
    case CumulativeTemporality
    with agg have agg': "cumulativeHistogram_Aggregation t ks s h = (out, s', h')"
      by (simp add: Aggregation_def)
    from cumulative_points [OF inv ne agg'] dp obtain b where
      b: "s' = s" "free h < free h'" "float64s h' (free h) = float64s h (bounds s)"
      "Suc (free h) \<le> BucketCounts dp" "BucketCounts dp < free h'"
      "values_hv s (Attributes dp) = Some b"
      "dp = data_point s t (free h) (BucketCounts dp) (Attributes dp) b"
      "uint64s h' (BucketCounts dp) = uint64s h (counts b)"
      by blast
    have "Bounds dp = free h" by (subst b(7)) (simp add: data_point_def)
    with b CumulativeTemporality show ?thesis by simp
  qed
qed

lemma snapshot_point_not_kept:
  assumes inv: "invariant s h" and d: "distinct ks"
    and agg: "Aggregation tmp t ks s h = (out, s', h')" and dp: "dp \<in> set (points out)"
  shows "Bounds dp \<noteq> bounds s' \<and> (\<forall>a b. values_hv s' a = Some b \<longrightarrow> counts b \<noteq> BucketCounts dp)"
proof -
  from snapshot_point [OF inv d agg dp] obtain b where
    b: "values_hv s (Attributes dp) = Some b" "Bounds dp = free h"
    "tmp = DeltaTemporality \<longrightarrow>
       BucketCounts dp = counts b \<and> Attributes dp \<in> set ks
       \<and> values_hv s' = values_hv s |` (- set ks)"
    "tmp = CumulativeTemporality \<longrightarrow> Suc (free h) \<le> BucketCounts dp \<and> s' = s"
    by blast
  from Aggregation_state [OF invariant_bounds [OF inv] agg] invariant_bounds [OF inv] b(2)
  have 1: "Bounds dp \<noteq> bounds s'" by simp
  have 2: "counts c \<noteq> BucketCounts dp" if c: "values_hv s' a = Some c" for a c
  proof (cases tmp)
    case CumulativeTemporality
    with b(4) c invariant_counts [OF inv, of a c] show ?thesis by auto
  next
    case DeltaTemporality
    with b(3) have e: "BucketCounts dp = counts b" "Attributes dp \<in> set ks"
      "values_hv s' = values_hv s |` (- set ks)" by simp_all
    from c e(3) have ca: "values_hv s a = Some c" "a \<notin> set ks"
      by (auto simp: restrict_map_def split: if_splits)
    with e(2) have "a \<noteq> Attributes dp" by auto
    with invariant_inj [OF inv ca(1) b(1)] e(1) show ?thesis by auto
  qed
  from 1 2 show ?thesis by blast
qed

lemma invariant_write_uint64s:
  assumes inv: "invariant s h" and nk: "\<forall>a b. values_hv s a = Some b \<longrightarrow> counts b \<noteq> x"
  shows "invariant s (write_uint64s x xs h) \<and> accumulators s (write_uint64s x xs h) = accumulators s h
         \<and> free (write_uint64s x xs h) = free h"
proof -
  have u: "uint64s (write_uint64s x xs h) (counts b) = uint64s h (counts b)"
    if "values_hv s a = Some b" for a b
    using nk that by (auto simp: write_uint64s_def)
  have f: "float64s (write_uint64s x xs h) = float64s h" "free (write_uint64s x xs h) = free h"
    by (simp_all add: write_uint64s_def)
  have "invariant s (write_uint64s x xs h)"
    using inv u unfolding invariant_def f by auto
  moreover have "accumulators s (write_uint64s x xs h) = accumulators s h"
    unfolding accumulators_def f using u by (auto simp: fun_eq_iff split: option.splits)
  ultimately show ?thesis using f by simp
qed

lemma invariant_write_float64s:
  assumes inv: "invariant s h" and nk: "x \<noteq> bounds s"
  shows "invariant s (write_float64s x ys h) \<and> accumulators s (write_float64s x ys h) = accumulators s h
         \<and> free (write_float64s x ys h) = free h"
proof -
  have f: "uint64s (write_float64s x ys h) = uint64s h" "free (write_float64s x ys h) = free h"
    "float64s (write_float64s x ys h) (bounds s) = float64s h (bounds s)"
    using nk by (simp_all add: write_float64s_def)
  have "invariant s (write_float64s x ys h)"
    using inv unfolding invariant_def f by auto
  moreover have "accumulators s (write_float64s x ys h) = accumulators s h"
    unfolding accumulators_def f by simp
  ultimately show ?thesis using f by simp
qed

lemma Aggregate_effect:
  assumes inv: "invariant s h" and agg: "Aggregate N v a s h = Inr (s1, h1)"
  shows "\<exists>c b1. values_hv s1 = (values_hv s)(a \<mapsto> b1) \<and> counts b1 = c
           \<and> (c = free h \<or> (\<exists>b. values_hv s a = Some b \<and> counts b = c))
           \<and> (\<forall>x. x \<noteq> c \<longrightarrow> uint64s h1 x = uint64s h x)"
proof (cases "values_hv s a")
  case None
  from agg Aggregate_None [OF inv None, of N v] show ?thesis
    by (intro exI [of _ "free h"]) auto
next
  case (Some b)
  from agg Aggregate_Some [OF inv Some, of N v] Some show ?thesis
    by (intro exI [of _ "counts b"] exI [of _ "bumped N v b"]) auto
qed

lemma run_frame:
  "invariant s h \<Longrightarrow> run N tmp cs s h = Inr (outs, s', h') \<Longrightarrow>
     (\<forall>x<free h. float64s h' x = float64s h x)
     \<and> (\<forall>x<free h. (\<forall>a b. values_hv s a = Some b \<longrightarrow> counts b \<noteq> x) \<longrightarrow>
           uint64s h' x = uint64s h x)"
proof (induction cs arbitrary: s h outs)
  case Nil
  then show ?case by simp
next
  case (Cons c cs)
  show ?case
  proof (cases c)
    case (Aggregate_call v a)
    from Aggregate_total [OF Cons.prems(1), of N v a] obtain s1 h1 where
      a1: "Aggregate N v a s h = Inr (s1, h1)" by blast
    from Cons.prems(2) a1 Aggregate_call have r: "run N tmp cs s1 h1 = Inr (outs, s', h')" by simp
    note ih = Cons.IH [OF invariant_Aggregate [OF Cons.prems(1) a1] r]
    from Aggregate_state [OF Cons.prems(1) a1] have
      fl: "float64s h1 = float64s h" and fr: "free h \<le> free h1" by simp_all
    have step: "uint64s h1 x = uint64s h x
                \<and> (\<forall>a b. values_hv s1 a = Some b \<longrightarrow> counts b \<noteq> x)"
      if x: "x < free h" "\<forall>a b. values_hv s a = Some b \<longrightarrow> counts b \<noteq> x" for x
    proof -
      from Aggregate_effect [OF Cons.prems(1) a1] obtain c b1 where
        e: "values_hv s1 = (values_hv s)(a \<mapsto> b1)" "counts b1 = c"
        "c = free h \<or> (\<exists>b. values_hv s a = Some b \<and> counts b = c)"
        "\<forall>x. x \<noteq> c \<longrightarrow> uint64s h1 x = uint64s h x" by blast
      from e(3) x have xc: "x \<noteq> c" by auto
      have "counts b' \<noteq> x" if "values_hv s1 y = Some b'" for y b'
      proof (cases "y = a")
        case True
        with that e(1,2) xc show ?thesis by auto
      next
        case False
        with that e(1) have "values_hv s y = Some b'" by simp
        with x(2) show ?thesis by blast
      qed
      with e(4) xc show ?thesis by blast
    qed
    show ?thesis
    proof (intro conjI allI impI)
      fix x assume "x < free h"
      with ih fl fr show "float64s h' x = float64s h x" by simp
    next
      fix x assume x: "x < free h" "\<forall>a b. values_hv s a = Some b \<longrightarrow> counts b \<noteq> x"
      from step [OF x] ih x(1) fr show "uint64s h' x = uint64s h x" by simp
    qed
  next
    case (Aggregation_call t ks)
    obtain out s1 h1 where a1: "Aggregation tmp t ks s h = (out, s1, h1)"
      by (cases "Aggregation tmp t ks s h") auto
    from Cons.prems(2) a1 Aggregation_call obtain outs1 where
      r: "run N tmp cs s1 h1 = Inr (outs1, s', h')"
      by (auto split: sum.splits)
    note ih = Cons.IH [OF invariant_Aggregation [OF Cons.prems(1) a1] r]
    from Aggregation_heap [OF Cons.prems(1) a1] have
      fr: "free h \<le> free h1" and same: "\<And>x. x < free h \<Longrightarrow> uint64s h1 x = uint64s h x"
      "\<And>x. x < free h \<Longrightarrow> float64s h1 x = float64s h x" by simp_all
    from Aggregation_state [OF invariant_bounds [OF Cons.prems(1)] a1] have
      sub: "\<forall>a. values_hv s1 a = None \<or> values_hv s1 a = values_hv s a" by simp
    show ?thesis
    proof (intro conjI allI impI)
      fix x assume "x < free h"
      with ih same fr show "float64s h' x = float64s h x" by simp
    next
      fix x assume x: "x < free h" "\<forall>a b. values_hv s a = Some b \<longrightarrow> counts b \<noteq> x"
      have "\<forall>a b. values_hv s1 a = Some b \<longrightarrow> counts b \<noteq> x"
        using sub x(2) by (metis option.distinct(1))
      with ih x(1) fr same(1) show "uint64s h' x = uint64s h x" by simp
    qed
  qed
qed

text \<open>
  C3, as stated, fails for a delta snapshot: the \<open>BucketCounts\<close> of a returned data point
  is not a duplicate, it is the accumulator's own \<open>counts\<close> slice (the same array).
\<close>

theorem delta_BucketCounts_counterexample:
  "(case run int64_number DeltaTemporality [Aggregate_call 3 (0 :: nat)]
           (\<lparr>bounds = 0, values_hv = Map.empty, noMinMax = False, start = 0\<rparr> :: (nat, int64) histogram)
           \<lparr>uint64s = (\<lambda>x. []), float64s = (\<lambda>x. [])(0 := [Finite 0, Finite 5, Finite 10]), free = 1\<rparr>
    of Inl e \<Rightarrow> None
     | Inr (outs, s, h) \<Rightarrow>
         Some (map_option counts (values_hv s 0), free h,
               map BucketCounts (points (fst (deltaHistogram_Aggregation 5 [0] s h)))))
   = Some (Some 1, 2, [1])"
  by (simp add: Aggregate_def bin_def newBuckets_def make_uint64s_def make_float64s_def
      copy_float64s_def SearchFloat64s_def Search_def Search_loop_unfold float64_ge_def
      float64_eq_def int64_number_def float64_of_int64_def float64_of_int_def Let_def
      word_sless_alt deltaHistogram_Aggregation_def data_point_def points_def)

text \<open>
  C3, amended: no slice of a returned data point is a slice that the aggregator keeps.
  \<open>Bounds\<close> is a new array holding a copy of the boundaries. In a cumulative snapshot
  \<open>BucketCounts\<close> is a new array holding a copy of the accumulator's bucket counts; in a
  delta snapshot it is the accumulator's own array, handed over as every accumulator
  leaves the map. So writing through a returned \<open>BucketCounts\<close> or \<open>Bounds\<close> leaves the
  state of the accumulators, and what the next snapshot reports, unchanged; and no later
  call changes what a returned data point holds.
\<close>

theorem snapshot_slices_are_not_kept:
  assumes "newHistogram cfg t0 h0 = (s0, h1)" and "run N tmp cs s0 h1 = Inr (outs, s, h)"
    and "range_order ks (values_hv s)" and "Aggregation tmp t ks s h = (out, s', h')"
    and "dp \<in> set (points out)" and "distinct ks'"
  shows "free h \<le> Bounds dp \<and> float64s h' (Bounds dp) = float64s h (bounds s)
     \<and> Bounds dp \<noteq> bounds s'
     \<and> (\<exists>b. values_hv s (Attributes dp) = Some b
           \<and> uint64s h' (BucketCounts dp) = uint64s h (counts b)
           \<and> (tmp = CumulativeTemporality \<longrightarrow> free h \<le> BucketCounts dp)
           \<and> (tmp = DeltaTemporality \<longrightarrow> BucketCounts dp = counts b \<and> values_hv s' = Map.empty))
     \<and> (\<forall>a b. values_hv s' a = Some b \<longrightarrow> counts b \<noteq> BucketCounts dp)
     \<and> accumulators s' (write_uint64s (BucketCounts dp) xs h') = accumulators s' h'
     \<and> accumulators s' (write_float64s (Bounds dp) ys h') = accumulators s' h'
     \<and> (case Aggregation tmp t' ks' s' (write_uint64s (BucketCounts dp) xs h') of
           (out2, s2, h2) \<Rightarrow> map (contents h2) (points out2))
       = (case Aggregation tmp t' ks' s' h' of (out2, s2, h2) \<Rightarrow> map (contents h2) (points out2))
     \<and> (case Aggregation tmp t' ks' s' (write_float64s (Bounds dp) ys h') of
           (out2, s2, h2) \<Rightarrow> map (contents h2) (points out2))
       = (case Aggregation tmp t' ks' s' h' of (out2, s2, h2) \<Rightarrow> map (contents h2) (points out2))
     \<and> (case run N tmp cs' s' h' of
           Inl e \<Rightarrow> False
         | Inr (outs', s'', h'') \<Rightarrow> contents h'' dp = contents h' dp)"
proof -
  from run_from_new [OF assms(1), of N tmp cs] assms(2) have inv: "invariant s h" by auto
  from assms(3) have d: "distinct ks" and k: "set ks = dom (values_hv s)"
    by (simp_all add: range_order_def)
  note agg = assms(4)
  from invariant_Aggregation [OF inv agg] have inv': "invariant s' h'" .
  from snapshot_point [OF inv d agg assms(5)] obtain b where
    b: "values_hv s (Attributes dp) = Some b" "Bounds dp = free h" "free h < free h'"
    "float64s h' (free h) = float64s h (bounds s)"
    "tmp = DeltaTemporality \<longrightarrow>
       BucketCounts dp = counts b \<and> Attributes dp \<in> set ks
       \<and> values_hv s' = values_hv s |` (- set ks)"
    "tmp = CumulativeTemporality \<longrightarrow>
       Suc (free h) \<le> BucketCounts dp \<and> BucketCounts dp < free h' \<and> s' = s
       \<and> uint64s h' (BucketCounts dp) = uint64s h (counts b)"
    by blast
  from snapshot_point_not_kept [OF inv d agg assms(5)] have
    nb: "Bounds dp \<noteq> bounds s'"
    and nk: "\<forall>a b. values_hv s' a = Some b \<longrightarrow> counts b \<noteq> BucketCounts dp"
    by simp_all
  from Aggregation_heap [OF inv agg] have
    below: "\<And>x. x < free h \<Longrightarrow> uint64s h' x = uint64s h x" by simp
  have cb: "counts b < free h" by (rule invariant_counts [OF inv b(1)])
  have u: "uint64s h' (BucketCounts dp) = uint64s h (counts b)"
    using b(5,6) below [OF cb] by (cases tmp) simp_all
  have lt: "BucketCounts dp < free h'"
    using b(5,6) cb b(3) by (cases tmp) simp_all
  have delta_empty: "tmp = DeltaTemporality \<longrightarrow> values_hv s' = Map.empty"
    using b(5) k by (simp add: restrict_map_to_none)
  have 1: "free h \<le> Bounds dp \<and> float64s h' (Bounds dp) = float64s h (bounds s)"
    using b(2,4) by simp
  have 2: "\<exists>b. values_hv s (Attributes dp) = Some b
           \<and> uint64s h' (BucketCounts dp) = uint64s h (counts b)
           \<and> (tmp = CumulativeTemporality \<longrightarrow> free h \<le> BucketCounts dp)
           \<and> (tmp = DeltaTemporality \<longrightarrow> BucketCounts dp = counts b \<and> values_hv s' = Map.empty)"
    using b(1,5,6) u delta_empty by (intro exI [of _ b]) auto
  note wu = invariant_write_uint64s [OF inv' nk, of xs]
  note wf = invariant_write_float64s [OF inv' nb, of ys]
  have same: "(case Aggregation tmp t' ks' s' hw of (out2, s2, h2) \<Rightarrow> map (contents h2) (points out2))
       = (case Aggregation tmp t' ks' s' h' of (out2, s2, h2) \<Rightarrow> map (contents h2) (points out2))"
    if "invariant s' hw" "accumulators s' hw = accumulators s' h'" for hw
  proof -
    obtain o1 s1 h1' where a1: "Aggregation tmp t' ks' s' hw = (o1, s1, h1')"
      by (cases "Aggregation tmp t' ks' s' hw") auto
    obtain o2 s2 h2' where a2: "Aggregation tmp t' ks' s' h' = (o2, s2, h2')"
      by (cases "Aggregation tmp t' ks' s' h'") auto
    from snapshot_contents [OF that(1) assms(6) a1] snapshot_contents [OF inv' assms(6) a2]
      reports_accumulators [OF that(2), of t' ks']
    show ?thesis by (simp add: a1 a2)
  qed
  have 5: "case run N tmp cs' s' h' of
           Inl e \<Rightarrow> False
         | Inr (outs', s'', h'') \<Rightarrow> contents h'' dp = contents h' dp"
  proof -
    from run_invariant [OF inv', of N tmp cs'] obtain outs' s'' h'' where
      r: "run N tmp cs' s' h' = Inr (outs', s'', h'')" by blast
    from run_frame [OF inv' r] b(2,3) lt nk have
      "float64s h'' (Bounds dp) = float64s h' (Bounds dp)"
      "uint64s h'' (BucketCounts dp) = uint64s h' (BucketCounts dp)"
      by simp_all
    then show ?thesis by (simp add: r contents_def)
  qed
  from 1 nb 2 nk wu wf same [of "write_uint64s (BucketCounts dp) xs h'"]
    same [of "write_float64s (Bounds dp) ys h'"] 5
  show ?thesis by simp
qed

theorem snapshot_slices_are_not_kept_witness:
  "newHistogram \<lparr>Boundaries = [Finite 0, Finite 5, Finite 10], NoMinMax = False\<rparr> 0 empty_heap
     = (\<lparr>bounds = 0, values_hv = Map.empty, noMinMax = False, start = 0\<rparr> :: (nat, int64) histogram,
        \<lparr>uint64s = (\<lambda>x. []), float64s = (\<lambda>x. [])(0 := [Finite 0, Finite 5, Finite 10]), free = 1\<rparr>)
   \<and> run int64_number DeltaTemporality [Aggregate_call 3 (0 :: nat)]
        (\<lparr>bounds = 0, values_hv = Map.empty, noMinMax = False, start = 0\<rparr> :: (nat, int64) histogram)
        \<lparr>uint64s = (\<lambda>x. []), float64s = (\<lambda>x. [])(0 := [Finite 0, Finite 5, Finite 10]), free = 1\<rparr>
     = Inr ([],
         \<lparr>bounds = 0,
           values_hv = [0 \<mapsto> \<lparr>counts = 1, count = 1, sum_b = 3, min_b = 3, max_b = 3\<rparr>],
           noMinMax = False, start = 0\<rparr>,
         \<lparr>uint64s = (\<lambda>x. [])(1 := [0, 1, 0, 0]),
           float64s = (\<lambda>x. [])(0 := [Finite 0, Finite 5, Finite 10]), free = 2\<rparr>)
   \<and> range_order [0 :: nat]
        [0 \<mapsto> \<lparr>counts = 1, count = 1, sum_b = 3 :: int64, min_b = 3, max_b = 3\<rparr>]
   \<and> Aggregation DeltaTemporality 5 [0]
        (\<lparr>bounds = 0,
           values_hv = [0 \<mapsto> \<lparr>counts = 1, count = 1, sum_b = 3, min_b = 3, max_b = 3\<rparr>],
           noMinMax = False, start = 0\<rparr> :: (nat, int64) histogram)
        \<lparr>uint64s = (\<lambda>x. [])(1 := [0, 1, 0, 0]),
          float64s = (\<lambda>x. [])(0 := [Finite 0, Finite 5, Finite 10]), free = 2\<rparr>
     = (Some \<lparr>DataPoints =
                [\<lparr>Attributes = 0, StartTime = 0, Time = 5, Count = 1, Bounds = 2,
                  BucketCounts = 1, Min_dp = Some 3, Max_dp = Some 3, Sum_dp = 3\<rparr>],
              Temporality = DeltaTemporality\<rparr>,
        \<lparr>bounds = 0, values_hv = Map.empty, noMinMax = False, start = 5\<rparr>,
        \<lparr>uint64s = (\<lambda>x. [])(1 := [0, 1, 0, 0]),
          float64s = (\<lambda>x. [])(0 := [Finite 0, Finite 5, Finite 10],
                                2 := [Finite 0, Finite 5, Finite 10]), free = 3\<rparr>)
   \<and> accumulators
        (\<lparr>bounds = 0, values_hv = Map.empty, noMinMax = False, start = 5\<rparr> :: (nat, int64) histogram)
        (write_uint64s 1 [9, 9, 9, 9]
          \<lparr>uint64s = (\<lambda>x. [])(1 := [0, 1, 0, 0]),
            float64s = (\<lambda>x. [])(0 := [Finite 0, Finite 5, Finite 10],
                                  2 := [Finite 0, Finite 5, Finite 10]), free = 3\<rparr>)
     = ([Finite 0, Finite 5, Finite 10], Map.empty)
   \<and> (case run int64_number DeltaTemporality [Aggregate_call 4 (0 :: nat)]
              (\<lparr>bounds = 0, values_hv = Map.empty, noMinMax = False, start = 5\<rparr> :: (nat, int64) histogram)
              \<lparr>uint64s = (\<lambda>x. [])(1 := [0, 1, 0, 0]),
                float64s = (\<lambda>x. [])(0 := [Finite 0, Finite 5, Finite 10],
                                      2 := [Finite 0, Finite 5, Finite 10]), free = 3\<rparr>
       of Inl e \<Rightarrow> False
        | Inr (outs', s'', h'') \<Rightarrow>
            map_option counts (values_hv s'' 0) = Some 3
            \<and> contents h''
                 (\<lparr>Attributes = 0, StartTime = 0, Time = 5, Count = 1, Bounds = 2,
                   BucketCounts = 1, Min_dp = Some 3, Max_dp = Some 3, Sum_dp = 3\<rparr>
                  :: (nat, int64) HistogramDataPoint)
               = (0, 0, 5, 1, [Finite 0, Finite 5, Finite 10], [0, 1, 0, 0], Some 3, Some 3, 3))"
  using snapshot_slices_are_not_kept
    [where cfg = "\<lparr>Boundaries = [Finite 0, Finite 5, Finite 10], NoMinMax = False\<rparr>"
       and ?t0.0 = 0 and ?h0.0 = empty_heap
       and ?s0.0 = "\<lparr>bounds = 0, values_hv = Map.empty, noMinMax = False, start = 0\<rparr> :: (nat, int64) histogram"
       and ?h1.0 = "\<lparr>uint64s = (\<lambda>x. []), float64s = (\<lambda>x. [])(0 := [Finite 0, Finite 5, Finite 10]), free = 1\<rparr>"
       and N = int64_number and tmp = DeltaTemporality
       and cs = "[Aggregate_call 3 (0 :: nat)]" and outs = "[]"
       and s = "\<lparr>bounds = 0,
                 values_hv = [0 \<mapsto> \<lparr>counts = 1, count = 1, sum_b = 3, min_b = 3, max_b = 3\<rparr>],
                 noMinMax = False, start = 0\<rparr>"
       and h = "\<lparr>uint64s = (\<lambda>x. [])(1 := [0, 1, 0, 0]),
                float64s = (\<lambda>x. [])(0 := [Finite 0, Finite 5, Finite 10]), free = 2\<rparr>"
       and ks = "[0]" and t = 5
       and out = "Some \<lparr>DataPoints =
                [\<lparr>Attributes = 0, StartTime = 0, Time = 5, Count = 1, Bounds = 2,
                  BucketCounts = 1, Min_dp = Some 3, Max_dp = Some 3, Sum_dp = 3\<rparr>],
              Temporality = DeltaTemporality\<rparr>"
       and s' = "\<lparr>bounds = 0, values_hv = Map.empty, noMinMax = False, start = 5\<rparr>"
       and h' = "\<lparr>uint64s = (\<lambda>x. [])(1 := [0, 1, 0, 0]),
          float64s = (\<lambda>x. [])(0 := [Finite 0, Finite 5, Finite 10],
                                2 := [Finite 0, Finite 5, Finite 10]), free = 3\<rparr>"
       and dp = "\<lparr>Attributes = 0, StartTime = 0, Time = 5, Count = 1, Bounds = 2,
                  BucketCounts = 1, Min_dp = Some 3, Max_dp = Some 3, Sum_dp = 3\<rparr>"
       and ks' = "[]" and t' = 6 and xs = "[9, 9, 9, 9]" and ys = "[]"
       and cs' = "[Aggregate_call 4 (0 :: nat)]"]
  by (simp add: newHistogram_eq empty_heap_def Aggregate_def bin_def
      newBuckets_def make_uint64s_def make_float64s_def copy_float64s_def
      SearchFloat64s_def Search_def Search_loop_unfold float64_ge_def float64_eq_def
      int64_number_def float64_of_int64_def float64_of_int_def Let_def Float64Slice_Less_def
      word_sless_alt Aggregation_def deltaHistogram_Aggregation_def data_point_def
      contents_def points_def range_order_def accumulators_def write_uint64s_def)

end
